theory Spec2Isabelle
  imports Main "HOL-Library.Word"
begin

section \<open>The column-template parser of the TeX input jax\<close>

text \<open>
  A shallow embedding of \<^verbatim>\<open>src/ts/input/tex/ColumnParser.ts\<close>: the class
  \<^verbatim>\<open>ColumnParser\<close> with its handler table \<^verbatim>\<open>columnHandler\<close> and its methods
  \<^verbatim>\<open>process\<close>, \<^verbatim>\<open>getColumn\<close>, \<^verbatim>\<open>getDimen\<close>, \<^verbatim>\<open>getAlign\<close> and \<^verbatim>\<open>getBraces\<close>.
  The parse state is passed explicitly; every \<^verbatim>\<open>throw\<close> is a left injection.
\<close>

subsection \<open>JavaScript strings, values and arrays\<close>

text \<open>
  A JavaScript string is a sequence of UTF-16 code units: \<^verbatim>\<open>length\<close>, indexing,
  \<^verbatim>\<open>charAt\<close> and \<^verbatim>\<open>slice\<close> count code units, and only \<^verbatim>\<open>codePointAt\<close> and
  \<^verbatim>\<open>String.fromCodePoint\<close> look at surrogate pairs.
\<close>

type_synonym jschar = "16 word"
type_synonym jsstring = "jschar list"

definition js :: "string \<Rightarrow> jsstring" where
  "js s = map of_char s"

definition backslash :: jschar where
  "backslash = 0x5C"

text \<open>
  A value that is a string or \<^verbatim>\<open>undefined\<close> is an option, and an array is a list of
  such values: a hole of a sparse array reads as \<^verbatim>\<open>undefined\<close> in every operation the
  parser applies (\<^verbatim>\<open>[...a]\<close>, \<^verbatim>\<open>a[0]\<close>, \<^verbatim>\<open>join\<close>). A write past the end extends the
  array, as \<^verbatim>\<open>a[k] = v\<close> does.
\<close>

type_synonym 'a jsarray = "'a option list"

definition arr_get :: "'a jsarray \<Rightarrow> nat \<Rightarrow> 'a option" where
  "arr_get xs k = (if k < length xs then xs ! k else None)"

definition arr_set :: "'a jsarray \<Rightarrow> nat \<Rightarrow> 'a option \<Rightarrow> 'a jsarray" where
  "arr_set xs k v =
     (if k < length xs then xs[k := v]
      else xs @ replicate (k - length xs) None @ [v])"

text \<open>\<^verbatim>\<open>t[k]\<close> on a string: the code unit at \<open>k\<close> as a string, \<^verbatim>\<open>undefined\<close> out of range.\<close>

definition str_index :: "jsstring \<Rightarrow> nat \<Rightarrow> jsstring option" where
  "str_index t k = (if k < length t then Some [t ! k] else None)"

text \<open>\<^verbatim>\<open>t.slice(a, b)\<close> for non-negative \<open>a\<close> and \<open>b\<close> (empty when \<open>b \<le> a\<close>).\<close>

definition str_slice :: "jsstring \<Rightarrow> nat \<Rightarrow> nat \<Rightarrow> jsstring" where
  "str_slice t a b = take (b - a) (drop a t)"

text \<open>Truthiness of a string-or-undefined value, and \<^verbatim>\<open>v || d\<close>.\<close>

definition truthy :: "jsstring option \<Rightarrow> bool" where
  "truthy v = (case v of None \<Rightarrow> False | Some s \<Rightarrow> s \<noteq> [])"

definition or_else :: "jsstring option \<Rightarrow> jsstring \<Rightarrow> jsstring" where
  "or_else v d = (case v of None \<Rightarrow> d | Some s \<Rightarrow> if s = [] then d else s)"

text \<open>\<^verbatim>\<open>a.join(sep)\<close>: an \<^verbatim>\<open>undefined\<close> element contributes the empty string.\<close>

fun join :: "jsstring \<Rightarrow> jsstring jsarray \<Rightarrow> jsstring" where
  "join sep [] = []"
| "join sep [x] = (case x of None \<Rightarrow> [] | Some s \<Rightarrow> s)"
| "join sep (x # y # ys) = (case x of None \<Rightarrow> [] | Some s \<Rightarrow> s) @ sep @ join sep (y # ys)"

text \<open>
  \<^verbatim>\<open>String.fromCodePoint(t.codePointAt(k))\<close>: a high surrogate followed by a low
  surrogate is one code point of two code units, anything else is one code unit.
\<close>

definition codePointAt :: "jsstring \<Rightarrow> nat \<Rightarrow> nat" where
  "codePointAt t k =
     (let u = t ! k in
      if 0xD800 \<le> u \<and> u \<le> 0xDBFF \<and> k + 1 < length t
         \<and> 0xDC00 \<le> t ! (k + 1) \<and> t ! (k + 1) \<le> 0xDFFF
      then (unat u - 0xD800) * 0x400 + (unat (t ! (k + 1)) - 0xDC00) + 0x10000
      else unat u)"

definition fromCodePoint :: "nat \<Rightarrow> jsstring" where
  "fromCodePoint cp =
     (if cp < 0x10000 then [word_of_nat cp]
      else [word_of_nat (0xD800 + (cp - 0x10000) div 0x400),
            word_of_nat (0xDC00 + (cp - 0x10000) mod 0x400)])"

text \<open>The test of \<^verbatim>\<open>codePointAt\<close> for a surrogate pair at \<open>k\<close>.\<close>

definition is_pair :: "jsstring \<Rightarrow> nat \<Rightarrow> bool" where
  "is_pair t k \<longleftrightarrow> 0xD800 \<le> t ! k \<and> t ! k \<le> 0xDBFF \<and> k + 1 < length t
         \<and> 0xDC00 \<le> t ! (k + 1) \<and> t ! (k + 1) \<le> 0xDFFF"

text \<open>
  The part of \<^verbatim>\<open>toLowerCase\<close> on the letters A to Z. The only strings whose lower case
  is \<^verbatim>\<open>l\<close>, \<^verbatim>\<open>c\<close> or \<^verbatim>\<open>r\<close> are these and their capitals, and \<^verbatim>\<open>getAlign\<close> looks at nothing
  else of the result.
\<close>

definition toLowerCase :: "jsstring \<Rightarrow> jsstring" where
  "toLowerCase s = map (\<lambda>u. if 0x41 \<le> u \<and> u \<le> 0x5A then u + 0x20 else u) s"

subsection \<open>Errors\<close>

text \<open>
  The four \<^verbatim>\<open>TexError\<close>s of the parser with the argument of their message, the
  \<^verbatim>\<open>TypeError\<close> of the runtime for a method call on \<^verbatim>\<open>undefined\<close>, and an exception
  raised inside the dimension validator.
\<close>

datatype error =
    BadColumnCharacter jsstring
  | MissingColumnDimOrUnits jsstring
  | MissingArgForColumn jsstring
  | MissingCloseBrace
  | TypeError
  | ValidatorError

subsection \<open>The array item and the parse state\<close>

text \<open>\<^verbatim>\<open>TEXCLASS.VTOP\<close>, \<^verbatim>\<open>TEXCLASS.VCENTER\<close> and \<^verbatim>\<open>TEXCLASS.VBOX\<close>.\<close>

datatype texclass = VTOP | VCENTER | VBOX

type_synonym ralign_entry = "texclass \<times> jsstring option \<times> jsstring option"

text \<open>
  The fields of \<^verbatim>\<open>ArrayItem\<close> that \<^verbatim>\<open>process\<close> touches; \<open>columnalign\<close>,
  \<open>columnwidth\<close> and \<open>columnlines\<close> are the entries of \<^verbatim>\<open>array.arraydef\<close>,
  \<open>None\<close> while unset.
\<close>

record ArrayItem =
  columnalign :: "jsstring option"
  columnwidth :: "jsstring option"
  columnlines :: "jsstring option"
  frame :: "jsstring list"
  dashed :: bool
  ralign :: "ralign_entry jsarray"

text \<open>
  \<^verbatim>\<open>ColumnState\<close>. The array \<open>cend\<close> is written at \<open>j - 1\<close>, which is the property
  \<open>-1\<close> when \<open>j = 0\<close>, and is never read: it is kept as the map of its properties.
\<close>

record ColumnState =
  template :: jsstring
  i :: nat
  c :: jsstring
  j :: nat
  calign :: "jsstring jsarray"
  cwidth :: "jsstring jsarray"
  clines :: "jsstring jsarray"
  cstart :: "jsstring jsarray"
  cend :: "int \<rightharpoonup> jsstring option"
  ralign :: "ralign_entry jsarray"

subsection \<open>getBraces\<close>

text \<open>The loop \<^verbatim>\<open>while (state.template[state.i] === ' ') state.i++\<close>.\<close>

function skip_spaces :: "jsstring \<Rightarrow> nat \<Rightarrow> nat" where
  "skip_spaces t k = (if str_index t k = Some (js '' '') then skip_spaces t (k + 1) else k)"
  by pat_completeness auto
termination
  by (relation "measure (\<lambda>(t, k). length t - k)") (auto simp: str_index_def split: if_splits)

text \<open>
  The loop \<^verbatim>\<open>while (state.i < state.template.length) switch (...)\<close>, with \<open>start\<close> the
  local \<^verbatim>\<open>i\<close>, \<open>k\<close> the cursor \<^verbatim>\<open>state.i\<close> and the counter \<^verbatim>\<open>braces\<close>; it returns the
  argument and the cursor.
\<close>

function brace_loop :: "jsstring \<Rightarrow> nat \<Rightarrow> nat \<Rightarrow> int \<Rightarrow> error + (jsstring \<times> nat)" where
  "brace_loop t start k braces =
     (if k < length t then
        (if t ! k = backslash then brace_loop t start (k + 1 + 1) braces
         else if t ! k = of_char CHR ''{'' then brace_loop t start (k + 1) (braces + 1)
         else if t ! k = of_char CHR ''}'' then
           (if braces - 1 = 0 then Inr (str_slice t start (k + 1 - 1), k + 1)
            else brace_loop t start (k + 1) (braces - 1))
         else brace_loop t start (k + 1) braces)
      else Inl MissingCloseBrace)"
  by pat_completeness auto
termination
  by (relation "measure (\<lambda>(t, start, k, braces). length t - k)") auto

definition getBraces :: "ColumnState \<Rightarrow> error + (jsstring option \<times> ColumnState)" where
  "getBraces state =
     (let k = skip_spaces (template state) (i state) in
      if k > length (template state) then Inl (MissingArgForColumn (c state))
      else if str_index (template state) k \<noteq> Some (js ''{'')
        then Inr (str_index (template state) k, state\<lparr>i := k + 1\<rparr>)
      else (case brace_loop (template state) (k + 1) (k + 1) 1 of
              Inl e \<Rightarrow> Inl e
            | Inr (arg, k') \<Rightarrow> Inr (Some arg, state\<lparr>i := k'\<rparr>)))"

subsection \<open>getAlign, getDimen and getColumn\<close>

text \<open>
  Modelled from the spec: \<^verbatim>\<open>lookup\<close> of \<^verbatim>\<open>util/Options.js\<close> is not among the sources.
  In \<^verbatim>\<open>getAlign\<close> the argument is mapped \<^verbatim>\<open>l\<close> to \<^verbatim>\<open>left\<close>, \<^verbatim>\<open>c\<close> to \<^verbatim>\<open>center\<close>, \<^verbatim>\<open>r\<close> to
  \<^verbatim>\<open>right\<close> and anything else to the empty string: the entry of the table under the
  name if there is one, the default otherwise.
\<close>

definition lookup :: "jsstring \<Rightarrow> (jsstring \<times> jsstring) list \<Rightarrow> jsstring \<Rightarrow> jsstring" where
  "lookup name table def = (case map_of table name of None \<Rightarrow> def | Some v \<Rightarrow> v)"

definition getAlign :: "ColumnState \<Rightarrow> error + (jsstring \<times> ColumnState)" where
  "getAlign state =
     (case getBraces state of
        Inl e \<Rightarrow> Inl e
      | Inr (align, state') \<Rightarrow>
          (case align of
             None \<Rightarrow> Inl TypeError
           | Some a \<Rightarrow>
               Inr (lookup (toLowerCase a)
                      [(js ''l'', js ''left''), (js ''c'', js ''center''), (js ''r'', js ''right'')]
                      (js ''''),
                    state')))"

text \<open>
  The validator \<^verbatim>\<open>ParseUtil.matchDimen\<close> is not among the sources and is a parameter:
  \<open>matchDimen dim\<close> is \<open>Some b\<close> when the call returns a triple whose first component
  has truthiness \<open>b\<close>, and \<open>None\<close> when the call itself raises. Its argument is what
  \<^verbatim>\<open>getBraces\<close> returned, a string or \<^verbatim>\<open>undefined\<close>.
\<close>

type_synonym validator = "jsstring option \<Rightarrow> bool option"

definition getDimen :: "validator \<Rightarrow> ColumnState \<Rightarrow> error + (jsstring option \<times> ColumnState)" where
  "getDimen matchDimen state =
     (case getBraces state of
        Inl e \<Rightarrow> Inl e
      | Inr (dim, state') \<Rightarrow>
          (case matchDimen dim of
             None \<Rightarrow> Inl ValidatorError
           | Some ok \<Rightarrow>
               if \<not> ok then Inl (MissingColumnDimOrUnits (c state'))
               else Inr (dim, state')))"

text \<open>
  \<^verbatim>\<open>getColumn(state, ralign, calign)\<close>; the handlers of \<^verbatim>\<open>p\<close>, \<^verbatim>\<open>m\<close> and \<^verbatim>\<open>b\<close> leave
  \<^verbatim>\<open>calign\<close> to its default \<^verbatim>\<open>'left'\<close>, which the model passes explicitly.
\<close>

definition getColumn :: "validator \<Rightarrow> ColumnState \<Rightarrow> texclass \<Rightarrow> jsstring \<Rightarrow> error + ColumnState" where
  "getColumn matchDimen state ral cal =
     (case (if cal \<noteq> [] then Inr (cal, state) else getAlign state) of
        Inl e \<Rightarrow> Inl e
      | Inr (al, s1) \<Rightarrow>
          (let s2 = s1\<lparr>calign := arr_set (calign s1) (j s1) (Some al)\<rparr> in
           case getDimen matchDimen s2 of
             Inl e \<Rightarrow> Inl e
           | Inr (dim, s3) \<Rightarrow>
               (let s4 = s3\<lparr>cwidth := arr_set (cwidth s3) (j s3) dim\<rparr>;
                    s5 = s4\<lparr>ralign := arr_set (ralign s4) (j s4)
                               (Some (ral, arr_get (cwidth s4) (j s4), arr_get (calign s4) (j s4)))\<rparr>
                in Inr (s5\<lparr>j := j s5 + 1\<rparr>))))"

subsection \<open>The handler table\<close>

type_synonym ColumnHandler = "ColumnState \<Rightarrow> error + ColumnState"

definition columnHandler :: "validator \<Rightarrow> (jsstring \<times> ColumnHandler) list" where
  "columnHandler matchDimen =
     [(js ''l'', \<lambda>state. Inr (state\<lparr>calign := arr_set (calign state) (j state) (Some (js ''left'')),
                                   j := j state + 1\<rparr>)),
      (js ''c'', \<lambda>state. Inr (state\<lparr>calign := arr_set (calign state) (j state) (Some (js ''center'')),
                                   j := j state + 1\<rparr>)),
      (js ''r'', \<lambda>state. Inr (state\<lparr>calign := arr_set (calign state) (j state) (Some (js ''right'')),
                                   j := j state + 1\<rparr>)),
      (js ''p'', \<lambda>state. getColumn matchDimen state VTOP (js ''left'')),
      (js ''m'', \<lambda>state. getColumn matchDimen state VCENTER (js ''left'')),
      (js ''b'', \<lambda>state. getColumn matchDimen state VBOX (js ''left'')),
      (js ''w'', \<lambda>state. getColumn matchDimen state VTOP (js '''')),
      (js ''W'', \<lambda>state. getColumn matchDimen state VTOP (js '''')),
      (js ''|'', \<lambda>state. Inr (state\<lparr>clines := arr_set (clines state) (j state) (Some (js ''solid''))\<rparr>)),
      (js '':'', \<lambda>state. Inr (state\<lparr>clines := arr_set (clines state) (j state) (Some (js ''dashed''))\<rparr>)),
      (js ''>'', \<lambda>state. case getBraces state of
                           Inl e \<Rightarrow> Inl e
                         | Inr (v, s') \<Rightarrow> Inr (s'\<lparr>cstart := arr_set (cstart s') (j s') v\<rparr>)),
      (js ''<'', \<lambda>state. case getBraces state of
                           Inl e \<Rightarrow> Inl e
                         | Inr (v, s') \<Rightarrow> Inr (s'\<lparr>cend := (cend s')(int (j s') - 1 \<mapsto> v)\<rparr>)),
      (js ''@'', \<lambda>state. case getBraces state of Inl e \<Rightarrow> Inl e | Inr (v, s') \<Rightarrow> Inr s'),
      (js ''!'', \<lambda>state. case getBraces state of Inl e \<Rightarrow> Inl e | Inr (v, s') \<Rightarrow> Inr s'),
      (js '' '', \<lambda>state. Inr state)]"

definition hasOwnProperty :: "(jsstring \<times> ColumnHandler) list \<Rightarrow> jsstring \<Rightarrow> bool" where
  "hasOwnProperty table name = (map_of table name \<noteq> None)"

subsection \<open>process\<close>

text \<open>One iteration of the loop over the template: the body of the \<^verbatim>\<open>while\<close>.\<close>

definition process_step :: "validator \<Rightarrow> ColumnState \<Rightarrow> error + ColumnState" where
  "process_step matchDimen state =
     (let ch = fromCodePoint (codePointAt (template state) (i state));
          state1 = state\<lparr>c := ch, i := i state + length ch\<rparr>
      in if \<not> hasOwnProperty (columnHandler matchDimen) ch then Inl (BadColumnCharacter ch)
         else the (map_of (columnHandler matchDimen) ch) state1)"

subsection \<open>The cursor only moves forward\<close>

declare skip_spaces.simps [simp del]
declare brace_loop.simps [simp del]

lemma skip_spaces_ge: "k \<le> skip_spaces t k"
proof (induction t k rule: skip_spaces.induct)
  case (1 t k)
  show ?case
  proof (cases "str_index t k = Some (js '' '')")
    case True
    with 1 have "k + 1 \<le> skip_spaces t (k + 1)" by simp
    moreover from True have "skip_spaces t k = skip_spaces t (k + 1)"
      by (subst skip_spaces.simps) simp
    ultimately show ?thesis by simp
  next
    case False
    then show ?thesis by (subst skip_spaces.simps) simp
  qed
qed

lemma brace_loop_cases:
  "brace_loop t start k braces = Inr (arg, k') \<Longrightarrow>
   k < length t \<and>
   (brace_loop t start (k + 1 + 1) braces = Inr (arg, k')
    \<or> brace_loop t start (k + 1) (braces + 1) = Inr (arg, k')
    \<or> k' = k + 1
    \<or> brace_loop t start (k + 1) (braces - 1) = Inr (arg, k')
    \<or> brace_loop t start (k + 1) braces = Inr (arg, k'))"
  by (subst (asm) brace_loop.simps) (auto split: if_splits)

lemma brace_loop_cursor:
  "brace_loop t start k braces = Inr (arg, k') \<Longrightarrow> k < k' \<and> k' \<le> length t"
proof (induction "length t - k" arbitrary: k braces rule: less_induct)
  case less
  from brace_loop_cases [OF less.prems] have lt: "k < length t"
    and cs: "brace_loop t start (k + 1 + 1) braces = Inr (arg, k')
    \<or> brace_loop t start (k + 1) (braces + 1) = Inr (arg, k')
    \<or> k' = k + 1
    \<or> brace_loop t start (k + 1) (braces - 1) = Inr (arg, k')
    \<or> brace_loop t start (k + 1) braces = Inr (arg, k')"
    by blast+
  have step: "k < k' \<and> k' \<le> length t"
    if "brace_loop t start k2 b = Inr (arg, k')" and "k < k2" for k2 b
  proof -
    from brace_loop_cases [OF that(1)] have "k2 < length t" by blast
    with that(2) have "length t - k2 < length t - k" by simp
    from less.hyps [OF this that(1)] that(2) show ?thesis by simp
  qed
  from cs show ?case
  proof (elim disjE)
    assume "k' = k + 1"
    with lt show ?thesis by simp
  qed (rule step, assumption, simp)+
qed

lemma getBraces_state:
  "getBraces state = Inr (v, state') \<Longrightarrow> state' = state\<lparr>i := i state'\<rparr> \<and> i state \<le> i state'"
proof -
  assume a: "getBraces state = Inr (v, state')"
  define k where "k = skip_spaces (template state) (i state)"
  have ge: "i state \<le> k" unfolding k_def by (rule skip_spaces_ge)
  show ?thesis
  proof (cases "str_index (template state) k \<noteq> Some (js ''{'')")
    case True
    with a have "state' = state\<lparr>i := k + 1\<rparr>"
      by (simp add: getBraces_def k_def [symmetric] split: if_splits)
    with ge show ?thesis by simp
  next
    case False
    with a obtain arg k' where b: "brace_loop (template state) (k + 1) (k + 1) 1 = Inr (arg, k')"
      and s: "state' = state\<lparr>i := k'\<rparr>"
      by (auto simp: getBraces_def k_def [symmetric] split: if_splits sum.splits)
    from brace_loop_cursor [OF b] ge s show ?thesis by simp
  qed
qed

lemma surrogate_units:
  fixes u v :: jschar
  assumes "0xD800 \<le> u" "u \<le> 0xDBFF" "0xDC00 \<le> v" "v \<le> 0xDFFF"
  shows "fromCodePoint ((unat u - 0xD800) * 0x400 + (unat v - 0xDC00) + 0x10000) = [u, v]"
proof -
  from assms have u: "0xD800 \<le> unat u" "unat u \<le> 0xDBFF" and v: "0xDC00 \<le> unat v" "unat v \<le> 0xDFFF"
    by (simp_all add: word_le_nat_alt)
  define a where "a = unat u - 0xD800"
  define b where "b = unat v - 0xDC00"
  from v have b: "b < 0x400" by (simp add: b_def)
  have nlt: "(a * 0x400 + b + 0x10000 < 0x10000) = False" by simp
  have cp: "a * 0x400 + b + 0x10000 - 0x10000 = a * 0x400 + b" by simp
  have d: "(a * 0x400 + b) div 0x400 = a" and m: "(a * 0x400 + b) mod 0x400 = b"
    using b by simp_all
  have hi: "0xD800 + (a * 0x400 + b) div 0x400 = unat u"
    unfolding d using u by (simp add: a_def)
  have lo: "0xDC00 + (a * 0x400 + b) mod 0x400 = unat v"
    unfolding m using v by (simp add: b_def)
  have "fromCodePoint (a * 0x400 + b + 0x10000) = [word_of_nat (unat u), word_of_nat (unat v)]"
    by (simp only: fromCodePoint_def nlt cp hi lo if_False)
  then show ?thesis
    by (simp add: a_def b_def)
qed

lemma fromCodePoint_codePointAt:
  "fromCodePoint (codePointAt t k) = (if is_pair t k then [t ! k, t ! (k + 1)] else [t ! k])"
proof (cases "is_pair t k")
  case True
  then have "codePointAt t k = (unat (t ! k) - 0xD800) * 0x400 + (unat (t ! (k + 1)) - 0xDC00) + 0x10000"
    by (simp add: codePointAt_def is_pair_def)
  with True surrogate_units [of "t ! k" "t ! (k + 1)"] show ?thesis
    by (simp add: is_pair_def)
next
  case False
  then have "codePointAt t k = unat (t ! k)"
    by (auto simp add: codePointAt_def is_pair_def Let_def)
  moreover have "unat (t ! k) < 0x10000"
    using unsigned_less [of "t ! k", where 'a = nat] by simp
  ultimately show ?thesis using False
    by (simp add: fromCodePoint_def)
qed

lemma getBraces_ex:
  "getBraces state = Inr (v, state') \<Longrightarrow> \<exists>k. i state \<le> k \<and> state' = state\<lparr>i := k\<rparr>"
  using getBraces_state by blast

lemma getAlign_ex:
  "getAlign state = Inr (a, state') \<Longrightarrow> \<exists>k. i state \<le> k \<and> state' = state\<lparr>i := k\<rparr>"
  by (auto simp: getAlign_def split: sum.splits option.splits dest: getBraces_ex)

lemma getDimen_ex:
  "getDimen md state = Inr (d, state') \<Longrightarrow> \<exists>k. i state \<le> k \<and> state' = state\<lparr>i := k\<rparr>"
  by (auto simp: getDimen_def split: sum.splits option.splits if_splits dest: getBraces_ex)

lemma arr_get_set_same: "arr_get (arr_set xs k v) k = v"
  by (simp add: arr_get_def arr_set_def nth_append)

lemma getColumn_split:
  assumes "getColumn md state ral cal = Inr state'"
  obtains al s1 dim s3 where
    "(if cal \<noteq> [] then Inr (cal, state) else getAlign state) = Inr (al, s1)"
    "getDimen md (s1\<lparr>calign := arr_set (calign s1) (j s1) (Some al)\<rparr>) = Inr (dim, s3)"
    "state' = s3\<lparr>cwidth := arr_set (cwidth s3) (j s3) dim,
                 ralign := arr_set (ralign s3) (j s3) (Some (ral, dim, arr_get (calign s3) (j s3))),
                 j := j s3 + 1\<rparr>"
proof (cases "if cal \<noteq> [] then Inr (cal, state) else getAlign state")
  case (Inl e)
  with assms show ?thesis unfolding getColumn_def by (simp only: sum.case) simp
next
  case (Inr p)
  obtain al s1 where p: "p = (al, s1)" by (cases p)
  show ?thesis
  proof (cases "getDimen md (s1\<lparr>calign := arr_set (calign s1) (j s1) (Some al)\<rparr>)")
    case (Inl e)
    with assms Inr p show ?thesis unfolding getColumn_def Let_def
      by (simp only: sum.case prod.case) simp
  next
    case r: (Inr q)
    obtain dim s3 where q: "q = (dim, s3)" by (cases q)
    from assms Inr p r q have
     "state' = s3\<lparr>cwidth := arr_set (cwidth s3) (j s3) dim,
                 ralign := arr_set (ralign s3) (j s3) (Some (ral, dim, arr_get (calign s3) (j s3))),
                 j := j s3 + 1\<rparr>"
      unfolding getColumn_def Let_def
      by (simp only: sum.case prod.case) (simp add: arr_get_set_same)
    with Inr p r q that show ?thesis by blast
  qed
qed


lemma getColumn_ex:
  assumes "getColumn md state ral cal = Inr state'"
  shows "\<exists>k al dim. i state \<le> k \<and>
           state' = state\<lparr>i := k,
                         calign := arr_set (calign state) (j state) (Some al),
                         cwidth := arr_set (cwidth state) (j state) dim,
                         ralign := arr_set (ralign state) (j state) (Some (ral, dim, Some al)),
                         j := j state + 1\<rparr>"
proof -
  from assms obtain al s1 dim s3 where
    a: "(if cal \<noteq> [] then Inr (cal, state) else getAlign state) = Inr (al, s1)" and
    d: "getDimen md (s1\<lparr>calign := arr_set (calign s1) (j s1) (Some al)\<rparr>) = Inr (dim, s3)" and
    e: "state' = s3\<lparr>cwidth := arr_set (cwidth s3) (j s3) dim,
                 ralign := arr_set (ralign s3) (j s3) (Some (ral, dim, arr_get (calign s3) (j s3))),
                 j := j s3 + 1\<rparr>"
    by (rule getColumn_split)
  have "\<exists>k1. i state \<le> k1 \<and> s1 = state\<lparr>i := k1\<rparr>"
  proof (cases "cal \<noteq> []")
    case True
    with a have "s1 = state" by simp
    then have "i state \<le> i state \<and> s1 = state\<lparr>i := i state\<rparr>" by simp
    then show ?thesis ..
  next
    case False
    with a have "getAlign state = Inr (al, s1)" by simp
    then show ?thesis by (rule getAlign_ex)
  qed
  then obtain k1 where k1: "i state \<le> k1" "s1 = state\<lparr>i := k1\<rparr>"
    by blast
  from getDimen_ex [OF d] k1 obtain k3 where
    k3: "k1 \<le> k3" "s3 = state\<lparr>i := k3, calign := arr_set (calign state) (j state) (Some al)\<rparr>"
    by auto
  from k1 k3 have "i state \<le> k3" by simp
  moreover from e k3 have "state' = state\<lparr>i := k3,
                         calign := arr_set (calign state) (j state) (Some al),
                         cwidth := arr_set (cwidth state) (j state) dim,
                         ralign := arr_set (ralign state) (j state) (Some (ral, dim, Some al)),
                         j := j state + 1\<rparr>"
    by (simp add: arr_get_set_same)
  ultimately show ?thesis by blast
qed

lemma handler_cursor:
  "(name, h) \<in> set (columnHandler md) \<Longrightarrow> h s = Inr s' \<Longrightarrow>
   template s' = template s \<and> i s \<le> i s'"
  unfolding columnHandler_def
  by (auto dest!: getColumn_ex getBraces_ex split: sum.splits)

lemma process_step_cursor:
  assumes "process_step md s = Inr s'"
  shows "template s' = template s \<and> i s < i s'"
proof -
  define ch where "ch = fromCodePoint (codePointAt (template s) (i s))"
  define s1 where "s1 = s\<lparr>c := ch, i := i s + length ch\<rparr>"
  have len: "1 \<le> length ch" by (simp add: ch_def fromCodePoint_def)
  from assms have has: "hasOwnProperty (columnHandler md) ch"
    and run: "the (map_of (columnHandler md) ch) s1 = Inr s'"
    by (simp_all add: process_step_def ch_def [symmetric] s1_def [symmetric] Let_def split: if_splits)
  from has obtain h where h: "map_of (columnHandler md) ch = Some h"
    by (auto simp: hasOwnProperty_def)
  then have "(ch, h) \<in> set (columnHandler md)" by (rule map_of_SomeD)
  from handler_cursor [OF this] run h have "template s' = template s1 \<and> i s1 \<le> i s'"
    by simp
  with len show ?thesis by (simp add: s1_def)
qed

subsection \<open>The scan loop and the finalization\<close>

text \<open>The loop \<^verbatim>\<open>while (state.i < state.template.length)\<close> of \<^verbatim>\<open>process\<close>.\<close>

function process_loop :: "validator \<Rightarrow> ColumnState \<Rightarrow> error + ColumnState" where
  "process_loop matchDimen state =
     (if i state < length (template state) then
        (case process_step matchDimen state of
           Inl e \<Rightarrow> Inl e
         | Inr state' \<Rightarrow> process_loop matchDimen state')
      else Inr state)"
  by pat_completeness auto
termination
proof (relation "measure (\<lambda>(matchDimen, state). length (template state) - i state)")
  show "wf (measure (\<lambda>(matchDimen, state). length (template state) - i state))"
    by simp
next
  fix matchDimen state state'
  assume "i state < length (template state)" and "process_step matchDimen state = Inr state'"
  then show "((matchDimen, state'), (matchDimen, state))
      \<in> measure (\<lambda>(matchDimen, state). length (template state) - i state)"
    using process_step_cursor [of matchDimen state state'] by (simp add: diff_less_mono2)
qed

declare process_loop.simps [simp del]

text \<open>
  The rest of \<^verbatim>\<open>process\<close>, after the loop: the column alignments, the column widths,
  the column lines and the table frame. \<^verbatim>\<open>state.ralign\<close> is the array \<^verbatim>\<open>array.ralign\<close>
  itself, so what the handlers wrote into it is in the array item.
\<close>

definition finalize :: "ColumnState \<Rightarrow> ArrayItem \<Rightarrow> ArrayItem" where
  "finalize state array =
     (let calign' = calign state;
          array1 = array\<lparr>ArrayItem.ralign := ralign state,
                         columnalign := Some (join (js '' '') calign')\<rparr>;
          array2 =
            (if length (cwidth state) \<noteq> 0 then
               (let cwidth' = cwidth state;
                    cwidth'' = (if length cwidth' < length calign'
                                then cwidth' @ [Some (js ''auto'')] else cwidth')
                in array1\<lparr>columnwidth :=
                     Some (join (js '' '') (map (\<lambda>w. Some (or_else w (js ''auto''))) cwidth''))\<rparr>)
             else array1)
      in if length (clines state) \<noteq> 0 then
           (let clines' = clines state;
                array3 =
                  (if truthy (arr_get clines' 0)
                   then array2\<lparr>frame := frame array2 @ [js ''left''],
                                dashed := (arr_get clines' 0 = Some (js ''dashed''))\<rparr>
                   else array2);
                array4 =
                  (if length clines' > length calign'
                   then array3\<lparr>frame := frame array3 @ [js ''right'']\<rparr> else array3);
                clines'' =
                  (if length clines' > length calign' then butlast clines'
                   else if length clines' < length calign' then clines' @ [Some (js ''none'')]
                   else clines')
            in array4\<lparr>columnlines :=
                 Some (join (js '' '') (map (\<lambda>l. Some (or_else l (js ''none''))) (drop 1 clines'')))\<rparr>)
         else array2)"

definition init_state :: "jsstring \<Rightarrow> ArrayItem \<Rightarrow> ColumnState" where
  "init_state tmpl array =
     \<lparr>template = tmpl, i = 0, c = js '''', j = 0,
      calign = [], cwidth = [], clines = [], cstart = [], cend = Map.empty,
      ralign = ArrayItem.ralign array\<rparr>"

text \<open>
  \<^verbatim>\<open>process(template, array)\<close>. An exception leaves the method with the error; the
  entries of \<^verbatim>\<open>array.ralign\<close> written before it are not part of the result.
\<close>

definition process :: "validator \<Rightarrow> jsstring \<Rightarrow> ArrayItem \<Rightarrow> error + ArrayItem" where
  "process matchDimen tmpl array =
     (case process_loop matchDimen (init_state tmpl array) of
        Inl e \<Rightarrow> Inl e
      | Inr state \<Rightarrow> Inr (finalize state array))"

section \<open>Notions for the statements\<close>

subsection \<open>Sample inputs\<close>

text \<open>
  An array item as the parser first meets it (no column attributes, an empty frame, not
  dashed, an empty \<open>ralign\<close>) and a validator that accepts the string \<^verbatim>\<open>3cm\<close>, rejects
  every other string and raises on \<^verbatim>\<open>undefined\<close>. They instantiate the theorems below.
\<close>

definition sample_array :: ArrayItem where
  "sample_array =
     \<lparr>columnalign = None, columnwidth = None, columnlines = None,
      frame = [], dashed = False, ralign = []\<rparr>"

definition sample_validator :: validator where
  "sample_validator v = (case v of None \<Rightarrow> None | Some d \<Rightarrow> Some (d = js ''3cm''))"

subsection \<open>Specifiers, tokens and the brace scan as the specification words them\<close>

text \<open>The errors a handler can raise when the current specifier is \<open>ch\<close>.\<close>

definition handler_errors :: "jsstring \<Rightarrow> error set" where
  "handler_errors ch =
     {MissingCloseBrace, MissingArgForColumn ch, TypeError, ValidatorError,
      MissingColumnDimOrUnits ch}"

text \<open>The alignment keyword of a simple specifier: \<^verbatim>\<open>l\<close> left, \<^verbatim>\<open>c\<close> center, \<^verbatim>\<open>r\<close> right.\<close>

definition align_of :: "jschar \<Rightarrow> jsstring" where
  "align_of u =
     (if u = of_char CHR ''l'' then js ''left''
      else if u = of_char CHR ''c'' then js ''center''
      else js ''right'')"

text \<open>
  The tokens of a space-joined attribute value: \<^verbatim>\<open>s.split(' ')\<close> without its empty
  strings.
\<close>

fun split_spaces :: "jsstring \<Rightarrow> jsstring list" where
  "split_spaces [] = [[]]"
| "split_spaces (u # us) =
     (if u = of_char CHR '' '' then [] # split_spaces us
      else (case split_spaces us of
              [] \<Rightarrow> [[u]]
            | w # ws \<Rightarrow> (u # w) # ws))"

definition tokens :: "jsstring \<Rightarrow> jsstring list" where
  "tokens s = filter (\<lambda>w. w \<noteq> []) (split_spaces s)"

text \<open>
  The brace reader as the specification words it: over the characters that follow the
  opening brace, with the nesting depth \<open>d\<close>, the offset of the closing brace at which the
  depth reaches 0. A backslash skips the character after it, an opening brace
  increments the depth, a closing brace decrements it; \<open>None\<close> when the input ends first.
\<close>

fun match_close :: "jsstring \<Rightarrow> nat \<Rightarrow> nat option" where
  "match_close [] d = None"
| "match_close (u # us) d =
     (if u = backslash then
        (case us of [] \<Rightarrow> None | v # vs \<Rightarrow> map_option (\<lambda>n. n + 2) (match_close vs d))
      else if u = of_char CHR ''{'' then map_option Suc (match_close us (d + 1))
      else if u = of_char CHR ''}'' then
        (if d = 1 then Some 0 else map_option Suc (match_close us (d - 1)))
      else map_option Suc (match_close us d))"

text \<open>The vertical class of a boxed column: \<^verbatim>\<open>p\<close> top, \<^verbatim>\<open>m\<close> center, \<^verbatim>\<open>b\<close> box.\<close>

definition vclass_of :: "jschar \<Rightarrow> texclass" where
  "vclass_of u =
     (if u = of_char CHR ''p'' then VTOP
      else if u = of_char CHR ''m'' then VCENTER
      else VBOX)"

subsection \<open>Traces of the loops\<close>

text \<open>The column-producing specifiers.\<close>

definition producing :: "jsstring \<Rightarrow> bool" where
  "producing ch \<longleftrightarrow>
     ch \<in> set (map js [''l'', ''c'', ''r'', ''p'', ''m'', ''b'', ''w'', ''W''])"

text \<open>
  The specifiers the loop dispatches from a state on, in order: the character of each
  iteration, up to the end of the template or the first error. The characters that handlers
  consume as arguments are not among them.
\<close>

function dispatched :: "validator \<Rightarrow> ColumnState \<Rightarrow> jsstring list" where
  "dispatched matchDimen state =
     (if i state < length (template state) then
        fromCodePoint (codePointAt (template state) (i state)) #
          (case process_step matchDimen state of
             Inl e \<Rightarrow> []
           | Inr state' \<Rightarrow> dispatched matchDimen state')
      else [])"
  by pat_completeness auto
termination
proof (relation "measure (\<lambda>(matchDimen, state). length (template state) - i state)")
  show "wf (measure (\<lambda>(matchDimen, state). length (template state) - i state))"
    by simp
next
  fix matchDimen state state'
  assume "i state < length (template state)" and "process_step matchDimen state = Inr state'"
  then show "((matchDimen, state'), (matchDimen, state))
      \<in> measure (\<lambda>(matchDimen, state). length (template state) - i state)"
    using process_step_cursor [of matchDimen state state'] by (simp add: diff_less_mono2)
qed

declare dispatched.simps [simp del]

text \<open>
  What one iteration at the specifier \<open>ch\<close> may do to the column index and to the arrays
  indexed by it: a column-producing specifier writes \<open>calign\<close> (and with it possibly \<open>cwidth\<close>
  and \<open>ralign\<close>) at the index \<open>j\<close> and increments \<open>j\<close>; any other leaves all four alone.
\<close>

definition column_write :: "jsstring \<Rightarrow> ColumnState \<Rightarrow> ColumnState \<Rightarrow> bool" where
  "column_write ch s s' \<longleftrightarrow>
     (if producing ch
      then j s' = j s + 1
           \<and> (\<exists>v. calign s' = arr_set (calign s) (j s) v)
           \<and> (cwidth s' = cwidth s \<and> ralign s' = ralign s
              \<or> (\<exists>w r. cwidth s' = arr_set (cwidth s) (j s) w
                      \<and> ralign s' = arr_set (ralign s) (j s) r))
      else j s' = j s \<and> calign s' = calign s \<and> cwidth s' = cwidth s \<and> ralign s' = ralign s)"

text \<open>Two states that differ at most in \<open>cend\<close>.\<close>

definition eq_cend :: "ColumnState \<Rightarrow> ColumnState \<Rightarrow> bool" where
  "eq_cend s s' \<longleftrightarrow> s'\<lparr>cend := cend s\<rparr> = s"

text \<open>
  The rest of \<^verbatim>\<open>process\<close> from a state of the loop on: the remaining iterations and the
  finalization. \<^verbatim>\<open>process\<close> is \<open>process_from\<close> at the initial state.
\<close>

definition process_from :: "validator \<Rightarrow> ColumnState \<Rightarrow> ArrayItem \<Rightarrow> error + ArrayItem" where
  "process_from matchDimen state array =
     (case process_loop matchDimen state of
        Inl e \<Rightarrow> Inl e
      | Inr state' \<Rightarrow> Inr (finalize state' array))"

text \<open>
  The number of iterations of the brace-scanning loop of \<^verbatim>\<open>getBraces\<close> from the cursor \<open>k\<close>
  and the counter \<^verbatim>\<open>braces\<close> on: the recursion of \<open>brace_loop\<close>, counting one per iteration.
  (The iterations of the loop of \<^verbatim>\<open>process\<close> are the elements of \<open>dispatched\<close>.)
\<close>

function brace_iterations :: "jsstring \<Rightarrow> nat \<Rightarrow> int \<Rightarrow> nat" where
  "brace_iterations t k braces =
     (if k < length t then
        1 + (if t ! k = backslash then brace_iterations t (k + 1 + 1) braces
             else if t ! k = of_char CHR ''{'' then brace_iterations t (k + 1) (braces + 1)
             else if t ! k = of_char CHR ''}'' then
               (if braces - 1 = 0 then 0 else brace_iterations t (k + 1) (braces - 1))
             else brace_iterations t (k + 1) braces)
      else 0)"
  by pat_completeness auto
termination
  by (relation "measure (\<lambda>(t, k, braces). length t - k)") auto

declare brace_iterations.simps [simp del]

section \<open>Lemmas\<close>

subsection \<open>Evaluation on a given template\<close>

text \<open>
  An iteration at a code unit that does not start a surrogate pair dispatches on that one
  code unit.
\<close>

lemma process_step_single:
  "\<not> is_pair (template s) (i s) \<Longrightarrow>
   process_step md s =
     (case map_of (columnHandler md) [template s ! i s] of
        None \<Rightarrow> Inl (BadColumnCharacter [template s ! i s])
      | Some h \<Rightarrow> h (s\<lparr>c := [template s ! i s], i := i s + 1\<rparr>))"
  by (auto simp: process_step_def fromCodePoint_codePointAt hasOwnProperty_def Let_def)

lemmas eval_simps = process_def init_state_def process_loop.simps process_step_single
  is_pair_def columnHandler_def js_def arr_set_def arr_get_def finalize_def Let_def
  truthy_def or_else_def getBraces_def skip_spaces.simps brace_loop.simps str_index_def
  str_slice_def getColumn_def getDimen_def getAlign_def lookup_def toLowerCase_def backslash_def

subsection \<open>The loop, one iteration at a time\<close>

lemma process_loop_done:
  "\<not> i s < length (template s) \<Longrightarrow> process_loop md s = Inr s"
  by (subst process_loop.simps) simp

lemma process_loop_step:
  "i s < length (template s) \<Longrightarrow>
   process_loop md s =
     (case process_step md s of Inl e \<Rightarrow> Inl e | Inr s' \<Rightarrow> process_loop md s')"
  by (subst process_loop.simps) simp

subsection \<open>Which errors can be raised\<close>

lemma brace_loop_error:
  "brace_loop t start k braces = Inl e \<Longrightarrow> e = MissingCloseBrace"
proof (induction "length t - k" arbitrary: k braces rule: less_induct)
  case less
  show ?case
  proof (cases "k < length t")
    case False
    with less.prems show ?thesis by (subst (asm) brace_loop.simps) simp
  next
    case True
    then have m: "length t - (k + 1) < length t - k" "length t - (k + 1 + 1) < length t - k"
      by simp_all
    from less.prems True have
      "brace_loop t start (k + 1 + 1) braces = Inl e
       \<or> brace_loop t start (k + 1) (braces + 1) = Inl e
       \<or> brace_loop t start (k + 1) (braces - 1) = Inl e
       \<or> brace_loop t start (k + 1) braces = Inl e"
      by (subst (asm) brace_loop.simps) (auto split: if_splits)
    with less.hyps m show ?thesis by blast
  qed
qed

lemma getBraces_error:
  "getBraces s = Inl e \<Longrightarrow> e = MissingCloseBrace \<or> e = MissingArgForColumn (c s)"
  by (auto simp: getBraces_def Let_def split: if_splits sum.splits dest: brace_loop_error)

lemma getAlign_error:
  "getAlign s = Inl e \<Longrightarrow> e = MissingCloseBrace \<or> e = MissingArgForColumn (c s) \<or> e = TypeError"
  by (auto simp: getAlign_def split: sum.splits option.splits dest: getBraces_error)

lemma getDimen_error:
  "getDimen md s = Inl e \<Longrightarrow>
   e = MissingCloseBrace \<or> e = MissingArgForColumn (c s) \<or> e = ValidatorError
   \<or> e = MissingColumnDimOrUnits (c s)"
  by (auto simp: getDimen_def split: sum.splits option.splits if_splits
      dest: getBraces_error getBraces_ex)

lemma getColumn_error:
  assumes "getColumn md s ral cal = Inl e"
  shows "e \<in> handler_errors (c s)"
proof (cases "if cal \<noteq> [] then Inr (cal, s) else getAlign s")
  case (Inl e')
  with assms have "e' = e" by (simp add: getColumn_def)
  with Inl have "getAlign s = Inl e" by (simp split: if_splits)
  from getAlign_error [OF this] show ?thesis by (auto simp: handler_errors_def)
next
  case (Inr p)
  obtain al s1 where p: "p = (al, s1)" by (cases p)
  have cs: "c s1 = c s"
  proof (cases "cal \<noteq> []")
    case True
    with Inr p show ?thesis by simp
  next
    case False
    with Inr p have "getAlign s = Inr (al, s1)" by simp
    from getAlign_ex [OF this] show ?thesis by auto
  qed
  define s2 where "s2 = s1\<lparr>calign := arr_set (calign s1) (j s1) (Some al)\<rparr>"
  have "getDimen md s2 = Inl e"
  proof (cases "getDimen md s2")
    case (Inl e')
    with assms Inr p show ?thesis
      by (simp add: getColumn_def s2_def [symmetric] Let_def)
  next
    case r: (Inr q)
    with assms Inr p show ?thesis
      by (simp add: getColumn_def s2_def [symmetric] Let_def split: prod.splits)
  qed
  from getDimen_error [OF this] cs show ?thesis
    by (auto simp: handler_errors_def s2_def)
qed

lemma handler_error:
  "(name, h) \<in> set (columnHandler md) \<Longrightarrow> h s = Inl e \<Longrightarrow> e \<in> handler_errors (c s)"
  unfolding columnHandler_def
  by (auto dest!: getColumn_error getBraces_error split: sum.splits simp: handler_errors_def)

lemma process_step_error:
  assumes "process_step md s = Inl e"
  shows "(e = BadColumnCharacter (fromCodePoint (codePointAt (template s) (i s)))
          \<and> \<not> hasOwnProperty (columnHandler md) (fromCodePoint (codePointAt (template s) (i s))))
         \<or> (e \<in> handler_errors (fromCodePoint (codePointAt (template s) (i s)))
          \<and> hasOwnProperty (columnHandler md) (fromCodePoint (codePointAt (template s) (i s))))"
proof -
  define ch where "ch = fromCodePoint (codePointAt (template s) (i s))"
  show ?thesis
  proof (cases "hasOwnProperty (columnHandler md) ch")
    case False
    with assms show ?thesis
      by (simp add: process_step_def ch_def [symmetric] Let_def)
  next
    case True
    then obtain h where h: "map_of (columnHandler md) ch = Some h"
      by (auto simp: hasOwnProperty_def)
    with assms True have "h (s\<lparr>c := ch, i := i s + length ch\<rparr>) = Inl e"
      by (simp add: process_step_def ch_def [symmetric] Let_def)
    from handler_error [OF map_of_SomeD [OF h] this] True show ?thesis
      by (simp add: ch_def)
  qed
qed

lemma process_loop_bad_char:
  "process_loop md s = Inl (BadColumnCharacter ch) \<Longrightarrow> \<not> hasOwnProperty (columnHandler md) ch"
proof (induction md s rule: process_loop.induct)
  case (1 md s)
  from "1.prems" have lt: "i s < length (template s)"
    by (subst (asm) process_loop.simps) (simp split: if_splits)
  show ?case
  proof (cases "process_step md s")
    case (Inl e)
    with "1.prems" lt have "e = BadColumnCharacter ch"
      by (simp add: process_loop_step)
    with process_step_error [OF Inl] show ?thesis
      by (auto simp: handler_errors_def)
  next
    case (Inr s')
    with "1.prems" lt have "process_loop md s' = Inl (BadColumnCharacter ch)"
      by (simp add: process_loop_step)
    with "1.IH" lt Inr show ?thesis by simp
  qed
qed

lemma hasOwnProperty_columnHandler:
  "hasOwnProperty (columnHandler md) ch \<longleftrightarrow>
   ch \<in> set (map js [''l'', ''c'', ''r'', ''p'', ''m'', ''b'', ''w'', ''W'',
                    ''|'', '':'', ''>'', ''<'', ''@'', ''!'', '' ''])"
  by (simp add: hasOwnProperty_def columnHandler_def)

subsection \<open>Tokens of a joined value\<close>

lemma split_spaces_nonempty: "split_spaces s \<noteq> []"
  by (induction s) (auto split: list.splits)

lemma split_spaces_word:
  "of_char CHR '' '' \<notin> set w \<Longrightarrow>
   split_spaces (w @ s) = (w @ hd (split_spaces s)) # tl (split_spaces s)"
proof (induction w)
  case Nil
  then show ?case using split_spaces_nonempty [of s] by simp
next
  case (Cons u w)
  then show ?case by (simp split: list.splits)
qed

lemma split_spaces_one: "of_char CHR '' '' \<notin> set w \<Longrightarrow> split_spaces w = [w]"
  using split_spaces_word [of w "[]"] by simp

lemma split_spaces_sep:
  "of_char CHR '' '' \<notin> set w \<Longrightarrow>
   split_spaces (w @ js '' '' @ s) = w # split_spaces s"
  using split_spaces_word [of w "js '' '' @ s"] by (simp add: js_def)

lemma tokens_join:
  "\<forall>w \<in> set ws. w \<noteq> [] \<and> of_char CHR '' '' \<notin> set w \<Longrightarrow>
   tokens (join (js '' '') (map Some ws)) = ws"
proof (induction ws rule: induct_list012)
  case 1
  then show ?case by (simp add: tokens_def)
next
  case (2 w)
  then show ?case by (simp add: tokens_def split_spaces_one)
next
  case (3 w v ws)
  then show ?case by (simp add: tokens_def split_spaces_sep)
qed

subsection \<open>Steps at given specifiers\<close>

lemma step_char:
  assumes "template s ! i s = u" and "u < 0xD800"
  shows "process_step md s =
     (case map_of (columnHandler md) [u] of
        None \<Rightarrow> Inl (BadColumnCharacter [u])
      | Some h \<Rightarrow> h (s\<lparr>c := [u], i := i s + 1\<rparr>))"
proof -
  from assms have "\<not> is_pair (template s) (i s)"
    by (auto simp: is_pair_def)
  then show ?thesis
    unfolding assms(1) [symmetric] by (rule process_step_single)
qed

lemma step_l:
  "template s ! i s = of_char CHR ''l'' \<Longrightarrow>
   process_step md s =
     Inr (s\<lparr>c := js ''l'', i := i s + 1,
            calign := arr_set (calign s) (j s) (Some (js ''left'')), j := j s + 1\<rparr>)"
  by (subst step_char [where u = "of_char CHR ''l''"]) (simp_all add: columnHandler_def js_def)


lemma step_c:
  "template s ! i s = of_char CHR ''c'' \<Longrightarrow>
   process_step md s =
     Inr (s\<lparr>c := js ''c'', i := i s + 1,
            calign := arr_set (calign s) (j s) (Some (js ''center'')), j := j s + 1\<rparr>)"
  by (subst step_char [where u = "of_char CHR ''c''"]) (simp_all add: columnHandler_def js_def)

lemma step_r:
  "template s ! i s = of_char CHR ''r'' \<Longrightarrow>
   process_step md s =
     Inr (s\<lparr>c := js ''r'', i := i s + 1,
            calign := arr_set (calign s) (j s) (Some (js ''right'')), j := j s + 1\<rparr>)"
  by (subst step_char [where u = "of_char CHR ''r''"]) (simp_all add: columnHandler_def js_def)

lemma step_lcr:
  assumes "template s ! i s \<in> {of_char CHR ''l'', of_char CHR ''c'', of_char CHR ''r''}"
  shows "process_step md s =
           Inr (s\<lparr>c := [template s ! i s], i := i s + 1,
                  calign := arr_set (calign s) (j s) (Some (align_of (template s ! i s))),
                  j := j s + 1\<rparr>)"
proof -
  from assms consider "template s ! i s = of_char CHR ''l''"
    | "template s ! i s = of_char CHR ''c''" | "template s ! i s = of_char CHR ''r''"
    by blast
  then show ?thesis
  proof cases
    case 1
    from step_l [OF 1, of md] 1 show ?thesis by (simp add: align_of_def js_def)
  next
    case 2
    from step_c [OF 2, of md] 2 show ?thesis by (simp add: align_of_def js_def)
  next
    case 3
    from step_r [OF 3, of md] 3 show ?thesis by (simp add: align_of_def js_def)
  qed
qed

lemma arr_set_end: "arr_set xs (length xs) v = xs @ [v]"
  by (simp add: arr_set_def)

lemma lcr_loop:
  assumes "set (drop (i s) (template s)) \<subseteq> {of_char CHR ''l'', of_char CHR ''c'', of_char CHR ''r''}"
    and "j s = length (calign s)"
  shows "\<exists>s'. process_loop md s = Inr s'
           \<and> calign s' = calign s @ map (\<lambda>u. Some (align_of u)) (drop (i s) (template s))
           \<and> cwidth s' = cwidth s \<and> clines s' = clines s \<and> ralign s' = ralign s"
  using assms
proof (induction "length (template s) - i s" arbitrary: s rule: less_induct)
  case less
  show ?case
  proof (cases "i s < length (template s)")
    case False
    then show ?thesis by (simp add: process_loop_done)
  next
    case True
    define u where "u = template s ! i s"
    define s1 where "s1 = s\<lparr>c := [u], i := i s + 1,
                  calign := calign s @ [Some (align_of u)], j := j s + 1\<rparr>"
    from True have dr: "drop (i s) (template s) = u # drop (i s + 1) (template s)"
      by (simp add: u_def Cons_nth_drop_Suc)
    with less.prems(1) have u: "u \<in> {of_char CHR ''l'', of_char CHR ''c'', of_char CHR ''r''}"
      and rest: "set (drop (i s1) (template s1)) \<subseteq> {of_char CHR ''l'', of_char CHR ''c'', of_char CHR ''r''}"
      by (simp_all add: s1_def)
    from u have st: "process_step md s = Inr s1"
      using step_lcr [of s md] less.prems(2) by (simp add: u_def s1_def arr_set_end)
    have m: "length (template s1) - i s1 < length (template s) - i s"
      using True by (simp add: s1_def)
    have j1: "j s1 = length (calign s1)"
      using less.prems(2) by (simp add: s1_def)
    from less.hyps [OF m rest j1] obtain s' where
      "process_loop md s1 = Inr s'"
      "calign s' = calign s1 @ map (\<lambda>u. Some (align_of u)) (drop (i s1) (template s1))"
      "cwidth s' = cwidth s1" "clines s' = clines s1" "ralign s' = ralign s1"
      by blast
    with st True dr show ?thesis
      by (simp add: process_loop_step s1_def)
  qed
qed

lemma align_of_token: "align_of u \<noteq> [] \<and> of_char CHR '' '' \<notin> set (align_of u)"
  by (simp add: align_of_def js_def)

subsection \<open>The brace reader against its specification\<close>

lemma match_close_brace:
  "match_close us d = Some n \<Longrightarrow> n < length us \<and> us ! n = of_char CHR ''}''"
proof (induction us d arbitrary: n rule: match_close.induct)
  case (1 d)
  then show ?case by simp
next
  case (2 u us d)
  show ?case
  proof (cases "u = backslash")
    case True
    with "2.prems" obtain v vs m where "us = v # vs" "match_close vs d = Some m" "n = m + 2"
      by (auto split: list.splits)
    with "2.IH"(1) [of v vs m] True show ?thesis by simp
  next
    case False
    note nb = this
    show ?thesis
    proof (cases "u = of_char CHR ''{''")
      case True
      with nb "2.prems" obtain m where "match_close us (d + 1) = Some m" "n = Suc m"
        by auto
      with "2.IH"(2) [of m] nb True show ?thesis by simp
    next
      case False
      note no = this
      show ?thesis
      proof (cases "u = of_char CHR ''}''")
        case True
        show ?thesis
        proof (cases "d = 1")
          case d: True
          with nb no True "2.prems" show ?thesis by simp
        next
          case d: False
          with nb no True "2.prems" obtain m where "match_close us (d - 1) = Some m" "n = Suc m"
            by auto
          with "2.IH"(3) [of m] nb no True d show ?thesis by simp
        qed
      next
        case False
        with nb no "2.prems" obtain m where "match_close us d = Some m" "n = Suc m"
          by auto
        with "2.IH"(4) [of m] nb no False show ?thesis by simp
      qed
    qed
  qed
qed

lemma brace_loop_end: "\<not> k < length t \<Longrightarrow> brace_loop t start k braces = Inl MissingCloseBrace"
  by (subst brace_loop.simps) simp

lemma brace_loop_backslash:
  "k < length t \<Longrightarrow> t ! k = backslash \<Longrightarrow>
   brace_loop t start k braces = brace_loop t start (k + 2) braces"
  by (subst brace_loop.simps) simp

lemma brace_loop_open:
  "k < length t \<Longrightarrow> t ! k = of_char CHR ''{'' \<Longrightarrow>
   brace_loop t start k braces = brace_loop t start (k + 1) (braces + 1)"
  by (subst brace_loop.simps) (simp add: backslash_def)

lemma brace_loop_close:
  "k < length t \<Longrightarrow> t ! k = of_char CHR ''}'' \<Longrightarrow>
   brace_loop t start k braces =
     (if braces = 1 then Inr (str_slice t start k, k + 1)
      else brace_loop t start (k + 1) (braces - 1))"
  by (subst brace_loop.simps) (simp add: backslash_def)

lemma brace_loop_other:
  "k < length t \<Longrightarrow> t ! k \<noteq> backslash \<Longrightarrow> t ! k \<noteq> of_char CHR ''{'' \<Longrightarrow>
   t ! k \<noteq> of_char CHR ''}'' \<Longrightarrow>
   brace_loop t start k braces = brace_loop t start (k + 1) braces"
  by (subst brace_loop.simps) simp

lemma brace_loop_match:
  "1 \<le> d \<Longrightarrow>
   brace_loop t start k (int d) =
     (case match_close (drop k t) d of
        None \<Rightarrow> Inl MissingCloseBrace
      | Some n \<Rightarrow> Inr (str_slice t start (k + n), k + n + 1))"
proof (induction "length t - k" arbitrary: k d rule: less_induct)
  case less
  show ?case
  proof (cases "k < length t")
    case False
    then show ?thesis by (simp add: brace_loop_end)
  next
    case True
    then have dr: "drop k t = t ! k # drop (k + 1) t"
      by (simp add: Cons_nth_drop_Suc)
    from True have m1: "length t - (k + 1) < length t - k" by simp
    note ih1 = less.hyps [OF m1]
    show ?thesis
    proof (cases "t ! k = backslash")
      case bs: True
      show ?thesis
      proof (cases "k + 1 < length t")
        case False
        then have "drop (k + 1) t = []" by simp
        with bs True False dr show ?thesis
          by (simp add: brace_loop_backslash brace_loop_end)
      next
        case k1: True
        then have dr2: "drop (k + 1) t = t ! (k + 1) # drop (k + 2) t"
          by (simp add: Cons_nth_drop_Suc)
        from True have "length t - (k + 2) < length t - k" by simp
        from less.hyps [OF this less.prems]
        have ih: "brace_loop t start (k + 2) (int d) =
           (case match_close (drop (k + 2) t) d of
              None \<Rightarrow> Inl MissingCloseBrace
            | Some n \<Rightarrow> Inr (str_slice t start (k + 2 + n), k + 2 + n + 1))" .
        have mc: "match_close (drop k t) d = map_option (\<lambda>n. n + 2) (match_close (drop (k + 2) t) d)"
          unfolding dr dr2 using bs by simp
        show ?thesis
          unfolding brace_loop_backslash [OF True bs] ih mc
          by (cases "match_close (drop (k + 2) t) d") (simp_all add: add.commute add.left_commute)
      qed
    next
      case nb: False
      show ?thesis
      proof (cases "t ! k = of_char CHR ''{''")
        case ob: True
        have "1 \<le> d + 1" by simp
        from ih1 [OF this]
        have ih: "brace_loop t start (k + 1) (int d + 1) =
           (case match_close (drop (k + 1) t) (d + 1) of
              None \<Rightarrow> Inl MissingCloseBrace
            | Some n \<Rightarrow> Inr (str_slice t start (k + 1 + n), k + 1 + n + 1))"
          by (simp add: add.commute)
        have mc: "match_close (drop k t) d = map_option Suc (match_close (drop (k + 1) t) (d + 1))"
          unfolding dr using nb ob by simp
        show ?thesis
          unfolding brace_loop_open [OF True ob] ih mc
          by (cases "match_close (drop (k + 1) t) (d + 1)") simp_all
      next
        case no: False
        show ?thesis
        proof (cases "t ! k = of_char CHR ''}''")
          case cb: True
          show ?thesis
          proof (cases "d = 1")
            case d1: True
            have mc: "match_close (drop k t) d = Some 0"
              unfolding dr using nb no cb d1 by simp
            show ?thesis
              unfolding brace_loop_close [OF True cb] mc using d1 by simp
          next
            case d1: False
            with less.prems have d: "1 \<le> d - 1" "int d - 1 = int (d - 1)" "int d \<noteq> 1"
              by simp_all
            note ih = ih1 [OF d(1)]
            have mc: "match_close (drop k t) d = map_option Suc (match_close (drop (k + 1) t) (d - 1))"
              unfolding dr using nb no cb d1 by simp
            show ?thesis
              unfolding brace_loop_close [OF True cb] mc d(2) ih using d(3)
              by (cases "match_close (drop (k + 1) t) (d - 1)") simp_all
          qed
        next
          case False
          note ih = ih1 [OF less.prems]
          have mc: "match_close (drop k t) d = map_option Suc (match_close (drop (k + 1) t) d)"
            unfolding dr using nb no False by simp
          show ?thesis
            unfolding brace_loop_other [OF True nb no False] ih mc
            by (cases "match_close (drop (k + 1) t) d") simp_all
        qed
      qed
    qed
  qed
qed

lemma skip_spaces_spec:
  "(\<forall>n. m \<le> n \<and> n < skip_spaces t m \<longrightarrow> n < length t \<and> t ! n = of_char CHR '' '')
   \<and> \<not> (skip_spaces t m < length t \<and> t ! skip_spaces t m = of_char CHR '' '')"
proof (induction t m rule: skip_spaces.induct)
  case (1 t k)
  show ?case
  proof (cases "str_index t k = Some (js '' '')")
    case True
    then have k: "k < length t" "t ! k = of_char CHR '' ''"
      by (auto simp: str_index_def js_def split: if_splits)
    from True have e: "skip_spaces t k = skip_spaces t (k + 1)"
      by (subst skip_spaces.simps) simp
    have "n < length t \<and> t ! n = of_char CHR '' ''" if "k \<le> n" "n < skip_spaces t (k + 1)" for n
    proof (cases "n = k")
      case True
      with k show ?thesis by simp
    next
      case False
      with that have "k + 1 \<le> n" by simp
      with "1.IH" [OF True] that(2) show ?thesis by blast
    qed
    with "1.IH" [OF True] show ?thesis unfolding e by blast
  next
    case False
    then have e: "skip_spaces t k = k"
      by (subst skip_spaces.simps) simp
    from False show ?thesis unfolding e
      by (auto simp: str_index_def js_def)
  qed
qed

lemma getBraces_token:
  assumes "skip_spaces (template s) (i s) = k" "k < length (template s)"
    "template s ! k \<noteq> of_char CHR ''{''"
  shows "getBraces s = Inr (Some [template s ! k], s\<lparr>i := k + 1\<rparr>)"
  using assms by (simp add: getBraces_def str_index_def js_def)

lemma getBraces_group:
  assumes "skip_spaces (template s) (i s) = k" "k < length (template s)"
    "template s ! k = of_char CHR ''{''"
  shows "getBraces s =
     (case match_close (drop (k + 1) (template s)) 1 of
        None \<Rightarrow> Inl MissingCloseBrace
      | Some n \<Rightarrow> Inr (Some (take n (drop (k + 1) (template s))), s\<lparr>i := k + 1 + n + 1\<rparr>))"
proof -
  have "brace_loop (template s) (k + 1) (k + 1) (int 1) =
     (case match_close (drop (k + 1) (template s)) 1 of
        None \<Rightarrow> Inl MissingCloseBrace
      | Some n \<Rightarrow> Inr (str_slice (template s) (k + 1) (k + 1 + n), k + 1 + n + 1))"
    by (rule brace_loop_match) simp
  then have b: "brace_loop (template s) (k + 1) (k + 1) 1 =
     (case match_close (drop (k + 1) (template s)) 1 of
        None \<Rightarrow> Inl MissingCloseBrace
      | Some n \<Rightarrow> Inr (take n (drop (k + 1) (template s)), k + 1 + n + 1))"
    by (cases "match_close (drop (k + 1) (template s)) 1") (simp_all add: str_slice_def)
  from assms have g: "getBraces s =
      (case brace_loop (template s) (k + 1) (k + 1) 1 of
         Inl e \<Rightarrow> Inl e
       | Inr (arg, k') \<Rightarrow> Inr (Some arg, s\<lparr>i := k'\<rparr>))"
    by (simp add: getBraces_def str_index_def js_def)
  show ?thesis unfolding g b
    by (cases "match_close (drop (k + 1) (template s)) 1") simp_all
qed

subsection \<open>Boxed columns\<close>

lemma getBraces_cong:
  assumes "template s' = template s" "i s' = i s" "c s' = c s"
  shows "getBraces s' =
     (case getBraces s of Inl e \<Rightarrow> Inl e | Inr (v, s2) \<Rightarrow> Inr (v, s'\<lparr>i := i s2\<rparr>))"
  unfolding getBraces_def Let_def assms
  by (simp split: sum.splits prod.splits)

lemma getColumn_left:
  assumes "getBraces s = Inr (dim, s2)"
  shows "getColumn md s ral (js ''left'') =
     (case md dim of
        None \<Rightarrow> Inl ValidatorError
      | Some ok \<Rightarrow>
          if \<not> ok then Inl (MissingColumnDimOrUnits (c s))
          else Inr (s\<lparr>i := i s2,
                      calign := arr_set (calign s) (j s) (Some (js ''left'')),
                      cwidth := arr_set (cwidth s) (j s) dim,
                      ralign := arr_set (ralign s) (j s) (Some (ral, dim, Some (js ''left''))),
                      j := j s + 1\<rparr>))"
proof -
  define s1 where "s1 = s\<lparr>calign := arr_set (calign s) (j s) (Some (js ''left''))\<rparr>"
  have "getBraces s1 = Inr (dim, s1\<lparr>i := i s2\<rparr>)"
    using getBraces_cong [of s1 s] assms by (simp add: s1_def)
  then have d: "getDimen md s1 =
     (case md dim of
        None \<Rightarrow> Inl ValidatorError
      | Some ok \<Rightarrow> if \<not> ok then Inl (MissingColumnDimOrUnits (c s)) else Inr (dim, s1\<lparr>i := i s2\<rparr>))"
    by (simp add: getDimen_def s1_def split: option.splits)
  have l: "js ''left'' \<noteq> []" by (simp add: js_def)
  show ?thesis
  proof (cases "md dim")
    case None
    with d l show ?thesis unfolding s1_def by (simp add: getColumn_def)
  next
    case (Some ok)
    with d l show ?thesis unfolding s1_def
      by (cases ok) (simp_all add: getColumn_def arr_get_set_same)
  qed
qed

lemma step_pmb_handler:
  assumes "u \<in> {of_char CHR ''p'', of_char CHR ''m'', of_char CHR ''b''}"
  shows "map_of (columnHandler md) [u] =
           Some (\<lambda>state. getColumn md state (vclass_of u) (js ''left''))"
proof -
  from assms consider "u = of_char CHR ''p''" | "u = of_char CHR ''m''" | "u = of_char CHR ''b''"
    by blast
  then show ?thesis
    by cases (simp_all add: columnHandler_def js_def vclass_of_def)
qed

lemma step_pmb:
  assumes u: "template s ! i s \<in> {of_char CHR ''p'', of_char CHR ''m'', of_char CHR ''b''}"
    and g: "getBraces (s\<lparr>c := [template s ! i s], i := i s + 1\<rparr>) = Inr (dim, s2)"
  shows "process_step md s =
     (case md dim of
        None \<Rightarrow> Inl ValidatorError
      | Some ok \<Rightarrow>
          if \<not> ok then Inl (MissingColumnDimOrUnits [template s ! i s])
          else Inr (s\<lparr>c := [template s ! i s], i := i s2,
                      calign := arr_set (calign s) (j s) (Some (js ''left'')),
                      cwidth := arr_set (cwidth s) (j s) dim,
                      ralign := arr_set (ralign s) (j s)
                         (Some (vclass_of (template s ! i s), dim, Some (js ''left''))),
                      j := j s + 1\<rparr>))"
proof -
  from u have "template s ! i s < 0xD800" by auto
  from step_char [OF refl this, of md]
  have "process_step md s =
      getColumn md (s\<lparr>c := [template s ! i s], i := i s + 1\<rparr>) (vclass_of (template s ! i s)) (js ''left'')"
    by (simp add: step_pmb_handler [OF u])
  also note getColumn_left [OF g]
  finally show ?thesis by (simp split: option.splits)
qed

subsection \<open>Finalization\<close>

lemma or_else_truthy:
  "or_else v d = (if truthy v then the v else d)"
  by (simp add: or_else_def truthy_def split: option.splits)

lemma or_else_nonempty: "d \<noteq> [] \<Longrightarrow> or_else v d \<noteq> []"
  by (simp add: or_else_def split: option.splits)

lemma finalize_columnwidth:
  "columnwidth (finalize st a) =
     (if cwidth st = [] then columnwidth a
      else Some (join (js '' '')
             (map (\<lambda>w. Some (or_else w (js ''auto'')))
                (if length (cwidth st) < length (calign st)
                 then cwidth st @ [Some (js ''auto'')] else cwidth st))))"
  by (simp add: finalize_def Let_def)

subsection \<open>The guard of the brace reader at the end of input\<close>

lemma skip_spaces_le: "m \<le> length t \<Longrightarrow> skip_spaces t m \<le> length t"
proof (induction t m rule: skip_spaces.induct)
  case (1 t k)
  show ?case
  proof (cases "str_index t k = Some (js '' '')")
    case True
    then have "k + 1 \<le> length t" by (simp add: str_index_def split: if_splits)
    with "1.IH" [OF True] have "skip_spaces t (k + 1) \<le> length t" by simp
    moreover from True have "skip_spaces t k = skip_spaces t (k + 1)"
      by (subst skip_spaces.simps) simp
    ultimately show ?thesis by simp
  next
    case False
    then have "skip_spaces t k = k" by (subst skip_spaces.simps) simp
    with "1.prems" show ?thesis by simp
  qed
qed

lemma getBraces_no_missing:
  "i s \<le> length (template s) \<Longrightarrow> getBraces s \<noteq> Inl (MissingArgForColumn x)"
  using skip_spaces_le [of "i s" "template s"]
  by (auto simp: getBraces_def Let_def split: sum.splits dest: brace_loop_error)

lemma getBraces_at_end:
  "skip_spaces (template s) (i s) = length (template s) \<Longrightarrow>
   getBraces s = Inr (None, s\<lparr>i := length (template s) + 1\<rparr>)"
  by (simp add: getBraces_def str_index_def)

lemma getBraces_some_cursor:
  assumes "getBraces s = Inr (Some v, s')" "i s \<le> length (template s)"
  shows "i s' \<le> length (template s')"
proof -
  define k where "k = skip_spaces (template s) (i s)"
  have kl: "k \<le> length (template s)" unfolding k_def using assms(2) by (rule skip_spaces_le)
  from getBraces_ex [OF assms(1)] have t: "template s' = template s" by auto
  show ?thesis
  proof (cases "str_index (template s) k \<noteq> Some (js ''{'')")
    case True
    with assms(1) have "str_index (template s) k = Some v" "s' = s\<lparr>i := k + 1\<rparr>"
      by (simp_all add: getBraces_def k_def [symmetric] split: if_splits)
    then show ?thesis by (simp add: str_index_def split: if_splits)
  next
    case False
    with assms(1) kl obtain arg k' where
      "brace_loop (template s) (k + 1) (k + 1) 1 = Inr (arg, k')" "s' = s\<lparr>i := k'\<rparr>"
      by (auto simp: getBraces_def k_def [symmetric] split: if_splits sum.splits)
    with brace_loop_cursor [of "template s" "k + 1" "k + 1" 1 arg k'] show ?thesis by simp
  qed
qed

lemma getAlign_no_missing:
  "i s \<le> length (template s) \<Longrightarrow> getAlign s \<noteq> Inl (MissingArgForColumn x)"
  using getBraces_no_missing [of s x]
  by (auto simp: getAlign_def split: sum.splits option.splits)

lemma getAlign_cursor:
  "getAlign s = Inr (al, s') \<Longrightarrow> i s \<le> length (template s) \<Longrightarrow> i s' \<le> length (template s')"
  by (auto simp: getAlign_def split: sum.splits option.splits dest: getBraces_some_cursor)

lemma getDimen_no_missing:
  "i s \<le> length (template s) \<Longrightarrow> getDimen md s \<noteq> Inl (MissingArgForColumn x)"
  using getBraces_no_missing [of s x]
  by (auto simp: getDimen_def split: sum.splits option.splits if_splits)

lemma getColumn_no_missing:
  assumes "i s \<le> length (template s)"
  shows "getColumn md s ral cal \<noteq> Inl (MissingArgForColumn x)"
proof (cases "if cal \<noteq> [] then Inr (cal, s) else getAlign s")
  case (Inl e)
  then have "getAlign s = Inl e" by (simp split: if_splits)
  with getAlign_no_missing [OF assms, of x] have "e \<noteq> MissingArgForColumn x" by auto
  with Inl show ?thesis by (simp add: getColumn_def)
next
  case (Inr p)
  obtain al s1 where p: "p = (al, s1)" by (cases p)
  have c1: "i s1 \<le> length (template s1)"
  proof (cases "cal \<noteq> []")
    case True
    with Inr p assms show ?thesis by simp
  next
    case False
    with Inr p have "getAlign s = Inr (al, s1)" by simp
    from getAlign_cursor [OF this assms] show ?thesis .
  qed
  define s2 where "s2 = s1\<lparr>calign := arr_set (calign s1) (j s1) (Some al)\<rparr>"
  from c1 have "i s2 \<le> length (template s2)" by (simp add: s2_def)
  from getDimen_no_missing [OF this, of md x] have d: "getDimen md s2 \<noteq> Inl (MissingArgForColumn x)" .
  show ?thesis
  proof (cases "getDimen md s2")
    case (Inl e)
    with d have "e \<noteq> MissingArgForColumn x" by auto
    with Inl Inr p show ?thesis by (simp add: getColumn_def s2_def [symmetric] Let_def)
  next
    case r: (Inr q)
    with Inr p show ?thesis
      by (simp add: getColumn_def s2_def [symmetric] Let_def split: prod.splits)
  qed
qed

lemma handler_no_missing:
  "(name, h) \<in> set (columnHandler md) \<Longrightarrow> i s \<le> length (template s) \<Longrightarrow>
   h s \<noteq> Inl (MissingArgForColumn x)"
  unfolding columnHandler_def
  using getColumn_no_missing [of s md _ _ x] getBraces_no_missing [of s x]
  by (auto split: sum.splits)

lemma process_step_no_missing:
  assumes "i s < length (template s)"
  shows "process_step md s \<noteq> Inl (MissingArgForColumn x)"
proof -
  define ch where "ch = fromCodePoint (codePointAt (template s) (i s))"
  define s1 where "s1 = s\<lparr>c := ch, i := i s + length ch\<rparr>"
  have "length ch = (if is_pair (template s) (i s) then 2 else 1)"
    by (simp add: ch_def fromCodePoint_codePointAt)
  with assms have c1: "i s1 \<le> length (template s1)"
    by (auto simp: s1_def is_pair_def)
  show ?thesis
  proof (cases "map_of (columnHandler md) ch")
    case None
    then show ?thesis
      by (simp add: process_step_def ch_def [symmetric] hasOwnProperty_def)
  next
    case (Some h)
    from handler_no_missing [OF map_of_SomeD [OF Some] c1, of x] Some show ?thesis
      by (simp add: process_step_def ch_def [symmetric] s1_def [symmetric] hasOwnProperty_def Let_def)
  qed
qed

lemma process_loop_no_missing:
  "process_loop md s \<noteq> Inl (MissingArgForColumn x)"
proof (induction md s rule: process_loop.induct)
  case (1 md s)
  show ?case
  proof (cases "i s < length (template s)")
    case False
    then show ?thesis by (simp add: process_loop_done)
  next
    case True
    show ?thesis
    proof (cases "process_step md s")
      case (Inl e)
      with process_step_no_missing [OF True, of md x] True show ?thesis
        by (simp add: process_loop_step)
    next
      case (Inr s')
      with "1.IH" [OF True Inr] True show ?thesis
        by (simp add: process_loop_step)
    qed
  qed
qed

subsection \<open>Writes at the column index\<close>

lemma getColumn_write:
  "getColumn md s ral cal = Inr s' \<Longrightarrow>
   j s' = j s + 1 \<and> (\<exists>v. calign s' = arr_set (calign s) (j s) v)
   \<and> (\<exists>w r. cwidth s' = arr_set (cwidth s) (j s) w \<and> ralign s' = arr_set (ralign s) (j s) r)
   \<and> c s' = c s"
  by (drule getColumn_ex) auto

lemma getBraces_write:
  "getBraces s = Inr (v, s') \<Longrightarrow>
   j s' = j s \<and> calign s' = calign s \<and> cwidth s' = cwidth s \<and> ralign s' = ralign s
   \<and> c s' = c s \<and> cstart s' = cstart s \<and> cend s' = cend s \<and> clines s' = clines s"
  by (drule getBraces_ex) auto

lemma handler_effect:
  assumes "map_of (columnHandler md) name = Some h" "h s = Inr s'"
  shows "column_write name s s' \<and> c s' = c s"
proof -
  from assms(1) have "hasOwnProperty (columnHandler md) name"
    by (simp add: hasOwnProperty_def)
  then have "name \<in> set (map js [''l'', ''c'', ''r'', ''p'', ''m'', ''b'', ''w'', ''W'',
                    ''|'', '':'', ''>'', ''<'', ''@'', ''!'', '' ''])"
    by (simp only: hasOwnProperty_columnHandler)
  then consider "name = js ''l''" | "name = js ''c''" | "name = js ''r''"
    | "name = js ''p''" | "name = js ''m''" | "name = js ''b''"
    | "name = js ''w''" | "name = js ''W''" | "name = js ''|''" | "name = js '':''"
    | "name = js ''>''" | "name = js ''<''" | "name = js ''@''" | "name = js ''!''"
    | "name = js '' ''"
    by auto
  then show ?thesis
  proof cases
  qed (insert assms,
       auto simp: columnHandler_def js_def column_write_def producing_def
            split: sum.splits dest!: getColumn_write getBraces_write)
qed

lemma arr_get_set_other: "k \<noteq> n \<Longrightarrow> arr_get (arr_set xs n v) k = arr_get xs k"
  by (auto simp: arr_get_def arr_set_def nth_append)

lemma process_step_write:
  assumes "process_step md s = Inr s'"
  shows "column_write (c s') s s' \<and> c s' = fromCodePoint (codePointAt (template s) (i s))"
proof -
  define ch where "ch = fromCodePoint (codePointAt (template s) (i s))"
  define s1 where "s1 = s\<lparr>c := ch, i := i s + length ch\<rparr>"
  from assms obtain h where h: "map_of (columnHandler md) ch = Some h" and r: "h s1 = Inr s'"
    by (auto simp: process_step_def ch_def [symmetric] s1_def [symmetric] hasOwnProperty_def
        Let_def split: if_splits)
  from handler_effect [OF h r] have "column_write ch s1 s'" "c s' = ch"
    by (simp_all add: s1_def)
  moreover have "column_write ch s1 s' = column_write ch s s'"
    by (simp add: column_write_def s1_def)
  ultimately show ?thesis by (simp add: ch_def)
qed

lemma column_write_frozen:
  assumes "column_write ch s s'" "k < j s"
  shows "j s \<le> j s' \<and> arr_get (calign s') k = arr_get (calign s) k
     \<and> arr_get (cwidth s') k = arr_get (cwidth s) k
     \<and> arr_get (ralign s') k = arr_get (ralign s) k"
  using assms by (auto simp: column_write_def arr_get_set_other split: if_splits)

lemma dispatched_done: "\<not> i s < length (template s) \<Longrightarrow> dispatched md s = []"
  by (subst dispatched.simps) simp

lemma dispatched_step:
  "i s < length (template s) \<Longrightarrow> process_step md s = Inr s' \<Longrightarrow>
   dispatched md s = c s' # dispatched md s'"
  using process_step_write [of md s s'] by (subst dispatched.simps) simp

lemma process_loop_columns:
  "process_loop md s = Inr s' \<Longrightarrow>
   j s' = j s + length (filter producing (dispatched md s))
   \<and> (\<forall>k < j s. arr_get (calign s') k = arr_get (calign s) k
         \<and> arr_get (cwidth s') k = arr_get (cwidth s) k
         \<and> arr_get (ralign s') k = arr_get (ralign s) k)"
proof (induction md s rule: process_loop.induct)
  case (1 md s)
  show ?case
  proof (cases "i s < length (template s)")
    case False
    with "1.prems" show ?thesis by (simp add: process_loop_done dispatched_done)
  next
    case True
    with "1.prems" obtain s1 where st: "process_step md s = Inr s1"
      and l: "process_loop md s1 = Inr s'"
      by (auto simp: process_loop_step split: sum.splits)
    from process_step_write [OF st] have w: "column_write (c s1) s s1" by blast
    then have j1: "j s1 = j s + (if producing (c s1) then 1 else 0)"
      by (simp add: column_write_def split: if_splits)
    from "1.IH" [OF True st l] have ih:
      "j s' = j s1 + length (filter producing (dispatched md s1))"
      "\<forall>k < j s1. arr_get (calign s') k = arr_get (calign s1) k
         \<and> arr_get (cwidth s') k = arr_get (cwidth s1) k
         \<and> arr_get (ralign s') k = arr_get (ralign s1) k"
      by simp_all
    have a: "j s' = j s + length (filter producing (dispatched md s))"
      using ih(1) j1 by (simp add: dispatched_step [OF True st])
    have b: "arr_get (calign s') k = arr_get (calign s) k
         \<and> arr_get (cwidth s') k = arr_get (cwidth s) k
         \<and> arr_get (ralign s') k = arr_get (ralign s) k" if "k < j s" for k
    proof -
      from column_write_frozen [OF w that] have f: "j s \<le> j s1"
        "arr_get (calign s1) k = arr_get (calign s) k"
        "arr_get (cwidth s1) k = arr_get (cwidth s) k"
        "arr_get (ralign s1) k = arr_get (ralign s) k"
        by simp_all
      from f(1) that have "k < j s1" by simp
      with ih(2) f show ?thesis by simp
    qed
    from a b show ?thesis by blast
  qed
qed

subsection \<open>Nothing reads cend\<close>

lemma getBraces_cend:
  "getBraces (s\<lparr>cend := ce\<rparr>) =
     (case getBraces s of Inl e \<Rightarrow> Inl e | Inr (v, s2) \<Rightarrow> Inr (v, s2\<lparr>cend := ce\<rparr>))"
proof (cases "getBraces s")
  case (Inl e)
  with getBraces_cong [of "s\<lparr>cend := ce\<rparr>" s] show ?thesis by simp
next
  case (Inr p)
  obtain v s2 where p: "p = (v, s2)" by (cases p)
  from getBraces_ex [of s v s2] Inr p obtain k where "s2 = s\<lparr>i := k\<rparr>" by auto
  with getBraces_cong [of "s\<lparr>cend := ce\<rparr>" s] Inr p show ?thesis by simp
qed

lemma getAlign_cend:
  "getAlign (s\<lparr>cend := ce\<rparr>) =
     (case getAlign s of Inl e \<Rightarrow> Inl e | Inr (v, s2) \<Rightarrow> Inr (v, s2\<lparr>cend := ce\<rparr>))"
  by (simp add: getAlign_def getBraces_cend split: sum.splits option.splits)

lemma getDimen_cend:
  "getDimen md (s\<lparr>cend := ce\<rparr>) =
     (case getDimen md s of Inl e \<Rightarrow> Inl e | Inr (v, s2) \<Rightarrow> Inr (v, s2\<lparr>cend := ce\<rparr>))"
  by (simp add: getDimen_def getBraces_cend split: sum.splits option.splits)

lemma getColumn_cend:
  "getColumn md (s\<lparr>cend := ce\<rparr>) ral cal =
     (case getColumn md s ral cal of Inl e \<Rightarrow> Inl e | Inr s2 \<Rightarrow> Inr (s2\<lparr>cend := ce\<rparr>))"
proof (cases "if cal \<noteq> [] then Inr (cal, s) else getAlign s")
  case (Inl e)
  then have a: "getAlign s = Inl e" "cal = []" by (simp_all split: if_splits)
  then show ?thesis by (simp add: getColumn_def getAlign_cend)
next
  case (Inr p)
  obtain al s1 where p: "p = (al, s1)" by (cases p)
  from Inr p have a: "(if cal \<noteq> [] then Inr (cal, s\<lparr>cend := ce\<rparr>) else getAlign (s\<lparr>cend := ce\<rparr>))
      = Inr (al, s1\<lparr>cend := ce\<rparr>)"
    by (auto simp: getAlign_cend split: if_splits)
  define s2 where "s2 = s1\<lparr>calign := arr_set (calign s1) (j s1) (Some al)\<rparr>"
  have d: "getDimen md (s2\<lparr>cend := ce\<rparr>) =
     (case getDimen md s2 of Inl e \<Rightarrow> Inl e | Inr (v, s3) \<Rightarrow> Inr (v, s3\<lparr>cend := ce\<rparr>))"
    by (rule getDimen_cend)
  have e: "(s1\<lparr>cend := ce\<rparr>)\<lparr>calign := arr_set (calign (s1\<lparr>cend := ce\<rparr>)) (j (s1\<lparr>cend := ce\<rparr>)) (Some al)\<rparr>
      = s2\<lparr>cend := ce\<rparr>"
    by (simp add: s2_def)
  show ?thesis
  proof (cases "getDimen md s2")
    case (Inl e')
    with d Inr p a e show ?thesis
      unfolding getColumn_def by (simp only: sum.case prod.case Let_def s2_def [symmetric]; simp)
  next
    case r: (Inr q)
    obtain dim s3 where q: "q = (dim, s3)" by (cases q)
    with d r Inr p a e show ?thesis
      unfolding getColumn_def by (simp only: sum.case prod.case Let_def s2_def [symmetric]; simp)
  qed
qed

lemma handler_cend:
  assumes "map_of (columnHandler md) name = Some h"
  shows "rel_sum (=) eq_cend (h s) (h (s\<lparr>cend := ce\<rparr>))"
proof -
  from assms have "hasOwnProperty (columnHandler md) name"
    by (simp add: hasOwnProperty_def)
  then have "name \<in> set (map js [''l'', ''c'', ''r'', ''p'', ''m'', ''b'', ''w'', ''W'',
                    ''|'', '':'', ''>'', ''<'', ''@'', ''!'', '' ''])"
    by (simp only: hasOwnProperty_columnHandler)
  then consider "name = js ''l''" | "name = js ''c''" | "name = js ''r''"
    | "name = js ''p''" | "name = js ''m''" | "name = js ''b''"
    | "name = js ''w''" | "name = js ''W''" | "name = js ''|''" | "name = js '':''"
    | "name = js ''>''" | "name = js ''<''" | "name = js ''@''" | "name = js ''!''"
    | "name = js '' ''"
    by auto
  then show ?thesis
  proof cases
  qed (insert assms,
       auto simp: columnHandler_def js_def eq_cend_def getColumn_cend getBraces_cend
            split: sum.splits)
qed

lemma process_step_cend:
  "rel_sum (=) eq_cend (process_step md s) (process_step md (s\<lparr>cend := ce\<rparr>))"
proof -
  define ch where "ch = fromCodePoint (codePointAt (template s) (i s))"
  show ?thesis
  proof (cases "map_of (columnHandler md) ch")
    case None
    then show ?thesis
      by (simp add: process_step_def ch_def [symmetric] hasOwnProperty_def)
  next
    case (Some h)
    have e: "(s\<lparr>cend := ce\<rparr>)\<lparr>c := ch, i := i s + length ch\<rparr> =
        (s\<lparr>c := ch, i := i s + length ch\<rparr>)\<lparr>cend := ce\<rparr>"
      by simp
    from handler_cend [OF Some, of "s\<lparr>c := ch, i := i s + length ch\<rparr>" ce] Some
    show ?thesis
      unfolding process_step_def Let_def
      by (simp add: ch_def [symmetric] hasOwnProperty_def e del: ColumnState.simps)
  qed
qed

lemma eq_cend_fields:
  "eq_cend s s' \<Longrightarrow> template s' = template s \<and> i s' = i s \<and> s' = s\<lparr>cend := cend s'\<rparr>"
proof -
  assume "eq_cend s s'"
  then have e: "s = s'\<lparr>cend := cend s\<rparr>" by (simp add: eq_cend_def)
  have "template s' = template (s'\<lparr>cend := cend s\<rparr>)" "i s' = i (s'\<lparr>cend := cend s\<rparr>)"
    "s' = (s'\<lparr>cend := cend s\<rparr>)\<lparr>cend := cend s'\<rparr>"
    by simp_all
  then show ?thesis using e by metis
qed

lemma process_loop_cend:
  "eq_cend s s' \<Longrightarrow> rel_sum (=) eq_cend (process_loop md s) (process_loop md s')"
proof (induction md s arbitrary: s' rule: process_loop.induct)
  case (1 md s)
  from eq_cend_fields [OF "1.prems"] have f: "template s' = template s" "i s' = i s"
    and s': "s' = s\<lparr>cend := cend s'\<rparr>" by blast+
  show ?case
  proof (cases "i s < length (template s)")
    case False
    with f "1.prems" show ?thesis by (simp add: process_loop_done)
  next
    case True
    have r: "rel_sum (=) eq_cend (process_step md s) (process_step md s')"
      using process_step_cend [of md s "cend s'"] s' by simp
    show ?thesis
    proof (cases "process_step md s")
      case (Inl e)
      with r have "process_step md s' = Inl e" by (cases "process_step md s'") simp_all
      with Inl True f show ?thesis by (simp add: process_loop_step)
    next
      case (Inr s1)
      with r obtain s1' where s1': "process_step md s' = Inr s1'" "eq_cend s1 s1'"
        by (cases "process_step md s'") simp_all
      from "1.IH" [OF True Inr s1'(2)] Inr s1'(1) True f show ?thesis
        by (simp add: process_loop_step)
    qed
  qed
qed

lemma finalize_cend: "eq_cend s s' \<Longrightarrow> finalize s' a = finalize s a"
proof -
  assume "eq_cend s s'"
  then have "s = s'\<lparr>cend := cend s\<rparr>" by (simp add: eq_cend_def)
  moreover have "finalize (s'\<lparr>cend := cend s\<rparr>) a = finalize s' a"
    by (simp add: finalize_def Let_def)
  ultimately show ?thesis by simp
qed

lemma process_from_cend: "process_from md (s\<lparr>cend := ce\<rparr>) a = process_from md s a"
proof -
  have "eq_cend s (s\<lparr>cend := ce\<rparr>)" by (simp add: eq_cend_def)
  from process_loop_cend [OF this, of md] show ?thesis
    by (cases "process_loop md s"; cases "process_loop md (s\<lparr>cend := ce\<rparr>)")
       (simp_all add: process_from_def finalize_cend)
qed

lemma step_lt:
  assumes "template s ! i s = of_char CHR ''<''"
    and "getBraces (s\<lparr>c := js ''<'', i := i s + 1\<rparr>) = Inr (v, s2)"
  shows "process_step md s =
     Inr (s\<lparr>c := js ''<'', i := i s2, cend := (cend s)(int (j s) - 1 \<mapsto> v)\<rparr>)"
proof -
  from getBraces_ex [OF assms(2)] obtain k where k: "s2 = s\<lparr>c := js ''<'', i := k\<rparr>"
    by auto
  have "process_step md s =
      (case getBraces (s\<lparr>c := js ''<'', i := i s + 1\<rparr>) of
         Inl e \<Rightarrow> Inl e
       | Inr (v, s') \<Rightarrow> Inr (s'\<lparr>cend := (cend s')(int (j s') - 1 \<mapsto> v)\<rparr>))"
    by (subst step_char [where u = "of_char CHR ''<''"])
       (simp_all add: assms(1) columnHandler_def js_def)
  with assms(2) k show ?thesis by simp
qed

subsection \<open>Bounds on the loops\<close>

lemma brace_iterations_step:
  assumes "k < length t"
  shows "brace_iterations t k braces = 1
     \<or> (\<exists>k' b'. k < k' \<and> brace_iterations t k braces = 1 + brace_iterations t k' b')"
proof -
  consider (bs) "t ! k = backslash"
    | (ob) "t ! k \<noteq> backslash" "t ! k = of_char CHR ''{''"
    | (cb1) "t ! k \<noteq> backslash" "t ! k \<noteq> of_char CHR ''{''" "t ! k = of_char CHR ''}''"
        "braces - 1 = 0"
    | (cb) "t ! k \<noteq> backslash" "t ! k \<noteq> of_char CHR ''{''" "t ! k = of_char CHR ''}''"
        "braces - 1 \<noteq> 0"
    | (other) "t ! k \<noteq> backslash" "t ! k \<noteq> of_char CHR ''{''" "t ! k \<noteq> of_char CHR ''}''"
    by blast
  then show ?thesis
  proof cases
    case bs
    have "brace_iterations t k braces = 1 + brace_iterations t (k + 1 + 1) braces"
      by (subst brace_iterations.simps) (simp add: assms bs)
    moreover have "k < k + 1 + 1" by simp
    ultimately show ?thesis by blast
  next
    case ob
    have "brace_iterations t k braces = 1 + brace_iterations t (k + 1) (braces + 1)"
      using assms ob by (subst brace_iterations.simps) (simp add: backslash_def)
    moreover have "k < k + 1" by simp
    ultimately show ?thesis by blast
  next
    case cb1
    have "brace_iterations t k braces = 1 + 0"
      using assms cb1 by (subst brace_iterations.simps) (simp add: backslash_def)
    then show ?thesis by simp
  next
    case cb
    have "brace_iterations t k braces = 1 + brace_iterations t (k + 1) (braces - 1)"
      using assms cb by (subst brace_iterations.simps) (simp add: backslash_def)
    moreover have "k < k + 1" by simp
    ultimately show ?thesis by blast
  next
    case other
    have "brace_iterations t k braces = 1 + brace_iterations t (k + 1) braces"
      using assms other by (subst brace_iterations.simps) (simp add: backslash_def)
    moreover have "k < k + 1" by simp
    ultimately show ?thesis by blast
  qed
qed

lemma brace_iterations_bound: "brace_iterations t k braces \<le> length t - k"
proof (induction "length t - k" arbitrary: k braces rule: less_induct)
  case less
  show ?case
  proof (cases "k < length t")
    case False
    then show ?thesis by (subst brace_iterations.simps) simp
  next
    case True
    from brace_iterations_step [OF True, of braces] show ?thesis
    proof (elim disjE exE conjE)
      assume "brace_iterations t k braces = 1"
      with True show ?thesis by simp
    next
      fix k' b'
      assume k': "k < k'" and e: "brace_iterations t k braces = 1 + brace_iterations t k' b'"
      show ?thesis
      proof (cases "k' < length t")
        case False
        then have "brace_iterations t k' b' = 0" by (subst brace_iterations.simps) simp
        with e True show ?thesis by simp
      next
        case k'l: True
        with k' have "length t - k' < length t - k" by simp
        from less.hyps [OF this, of b'] e k' k'l show ?thesis by simp
      qed
    qed
  qed
qed

lemma dispatched_bound: "length (dispatched md s) \<le> length (template s) - i s"
proof (induction md s rule: process_loop.induct)
  case (1 md s)
  show ?case
  proof (cases "i s < length (template s)")
    case False
    then show ?thesis by (simp add: dispatched_done)
  next
    case True
    show ?thesis
    proof (cases "process_step md s")
      case (Inl e)
      with True show ?thesis by (subst dispatched.simps) simp
    next
      case (Inr s')
      from process_step_cursor [OF Inr] have c: "template s' = template s" "i s < i s'" by simp_all
      from "1.IH" [OF True Inr] c True have "length (dispatched md s') < length (template s) - i s"
        by simp
      with True Inr show ?thesis by (simp add: dispatched_step)
    qed
  qed
qed

lemma process_loop_errors:
  "process_loop md s = Inl e \<Longrightarrow>
   (\<exists>ch. e = BadColumnCharacter ch \<or> e \<in> handler_errors ch)"
proof (induction md s rule: process_loop.induct)
  case (1 md s)
  from "1.prems" have lt: "i s < length (template s)"
    by (subst (asm) process_loop.simps) (simp split: if_splits)
  show ?case
  proof (cases "process_step md s")
    case (Inl e')
    with "1.prems" lt have "e' = e" by (simp add: process_loop_step)
    with process_step_error [OF Inl] show ?thesis by blast
  next
    case (Inr s')
    with "1.prems" lt have "process_loop md s' = Inl e" by (simp add: process_loop_step)
    from "1.IH" [OF lt Inr this] show ?thesis .
  qed
qed

section \<open>The claims of the specification\<close>

subsection \<open>C1: the template with a line at every border\<close>

text \<open>
  C1, as the code has it. For every validator and every array item, in particular a freshly
  constructed one, \<^verbatim>\<open>process("|l|c|r|", array)\<close> returns normally, sets \<open>columnalign\<close> to
  \<^verbatim>\<open>left center right\<close>, appends \<^verbatim>\<open>left\<close> and then \<^verbatim>\<open>right\<close> to \<open>frame\<close>, sets \<open>dashed\<close>
  to false and sets \<open>columnlines\<close> to \<^verbatim>\<open>solid solid\<close>: the two outer lines go to the frame,
  the two inner ones stay solid. Nothing else of the array item changes.
\<close>

theorem C1_process_all_borders:
  "process md (js ''|l|c|r|'') a =
     Inr (a\<lparr>columnalign := Some (js ''left center right''),
            frame := frame a @ [js ''left'', js ''right''],
            dashed := False,
            columnlines := Some (js ''solid solid'')\<rparr>)"
  by (simp add: eval_simps)

text \<open>
  C1 as stated asks for \<open>columnlines\<close> \<^verbatim>\<open>none none\<close>; on the sample array the code
  gives \<^verbatim>\<open>solid solid\<close>.
\<close>

theorem C1_columnlines_counterexample:
  "(case process sample_validator (js ''|l|c|r|'') sample_array of
      Inl e \<Rightarrow> False
    | Inr a \<Rightarrow> columnlines a = Some (js ''solid solid'')
              \<and> columnlines a \<noteq> Some (js ''none none''))"
  by (simp add: eval_simps sample_array_def)

subsection \<open>C2: the column widths\<close>

text \<open>
  C2, as the code has it. Let the loop over the template end in the state \<open>st\<close>. When
  \<open>cwidth\<close> is empty, \<open>columnwidth\<close> is left as it was. When it is not, \<open>columnwidth\<close> is the
  space-joined list \<open>ws\<close> of the entries of \<open>cwidth\<close>, every empty or missing entry replaced
  with \<^verbatim>\<open>auto\<close>, followed by a single \<^verbatim>\<open>auto\<close> when \<open>cwidth\<close> is shorter than \<open>calign\<close>: the
  list has one entry more than \<open>cwidth\<close> in that case, however many columns \<open>calign\<close> has,
  and as many as \<open>cwidth\<close> otherwise; when no entry holds a space these entries are the
  tokens of \<open>columnwidth\<close>. When the validator accepts \<^verbatim>\<open>3cm\<close>, \<^verbatim>\<open>process("p{3cm}cc", array)\<close>
  sets \<open>columnwidth\<close> to \<^verbatim>\<open>3cm auto\<close>.
\<close>

theorem C2_columnwidth_single_auto:
  "(process_loop md (init_state t a) = Inr st \<longrightarrow>
      process md t a = Inr (finalize st a)
      \<and> (cwidth st = [] \<longrightarrow> columnwidth (finalize st a) = columnwidth a)
      \<and> (cwidth st \<noteq> [] \<longrightarrow>
           (\<exists>ws. columnwidth (finalize st a) = Some (join (js '' '') (map Some ws))
              \<and> length ws = (if length (cwidth st) < length (calign st)
                              then length (cwidth st) + 1 else length (cwidth st))
              \<and> (\<forall>k < length ws.
                    ws ! k = (if truthy (arr_get (cwidth st) k)
                              then the (arr_get (cwidth st) k) else js ''auto''))
              \<and> ((\<forall>w \<in> set ws. of_char CHR '' '' \<notin> set w) \<longrightarrow>
                    tokens (join (js '' '') (map Some ws)) = ws))))
   \<and> (md (Some (js ''3cm'')) = Some True \<longrightarrow>
        process md (js ''p{3cm}cc'') a =
          Inr (a\<lparr>columnalign := Some (js ''left center center''),
                 columnwidth := Some (js ''3cm auto''),
                 ArrayItem.ralign := arr_set (ArrayItem.ralign a) 0
                    (Some (VTOP, Some (js ''3cm''), Some (js ''left'')))\<rparr>))"
proof -
  have p: "process md t a = Inr (finalize st a)"
    if "process_loop md (init_state t a) = Inr st"
    using that by (simp add: process_def)
  have e: "columnwidth (finalize st a) = columnwidth a" if "cwidth st = []"
    using that by (simp add: finalize_columnwidth)
  have n: "\<exists>ws. columnwidth (finalize st a) = Some (join (js '' '') (map Some ws))
              \<and> length ws = (if length (cwidth st) < length (calign st)
                              then length (cwidth st) + 1 else length (cwidth st))
              \<and> (\<forall>k < length ws.
                    ws ! k = (if truthy (arr_get (cwidth st) k)
                              then the (arr_get (cwidth st) k) else js ''auto''))
              \<and> ((\<forall>w \<in> set ws. of_char CHR '' '' \<notin> set w) \<longrightarrow>
                    tokens (join (js '' '') (map Some ws)) = ws)"
    if ne: "cwidth st \<noteq> []"
  proof -
    define cw where "cw = (if length (cwidth st) < length (calign st)
                 then cwidth st @ [Some (js ''auto'')] else cwidth st)"
    define ws where "ws = map (\<lambda>w. or_else w (js ''auto'')) cw"
    have 1: "columnwidth (finalize st a) = Some (join (js '' '') (map Some ws))"
      using ne by (simp add: finalize_columnwidth ws_def cw_def comp_def)
    have 2: "length ws = (if length (cwidth st) < length (calign st)
                              then length (cwidth st) + 1 else length (cwidth st))"
      by (simp add: ws_def cw_def)
    have au: "js ''auto'' \<noteq> []" by (simp add: js_def)
    have 3: "ws ! k = (if truthy (arr_get (cwidth st) k)
                              then the (arr_get (cwidth st) k) else js ''auto'')"
      if "k < length ws" for k
    proof (cases "k < length (cwidth st)")
      case True
      then have "cw ! k = cwidth st ! k" by (simp add: cw_def nth_append)
      with True that show ?thesis
        by (simp add: ws_def or_else_truthy arr_get_def)
    next
      case False
      with that have "cw ! k = Some (js ''auto'')"
        by (auto simp: ws_def cw_def nth_append split: if_splits)
      with False that au show ?thesis
        by (simp add: ws_def or_else_truthy arr_get_def truthy_def)
    qed
    have 4: "tokens (join (js '' '') (map Some ws)) = ws"
      if "\<forall>w \<in> set ws. of_char CHR '' '' \<notin> set w"
    proof (rule tokens_join)
      have "\<forall>w \<in> set ws. w \<noteq> []"
        using au by (auto simp: ws_def or_else_nonempty)
      with that show "\<forall>w \<in> set ws. w \<noteq> [] \<and> of_char CHR '' '' \<notin> set w" by blast
    qed
    from 1 2 3 4 show ?thesis by blast
  qed
  have ex: "process md (js ''p{3cm}cc'') a =
          Inr (a\<lparr>columnalign := Some (js ''left center center''),
                 columnwidth := Some (js ''3cm auto''),
                 ArrayItem.ralign := arr_set (ArrayItem.ralign a) 0
                    (Some (VTOP, Some (js ''3cm''), Some (js ''left'')))\<rparr>)"
    if "md (Some (js ''3cm'')) = Some True"
    using that by (simp add: eval_simps)
  from p e n ex show ?thesis by blast
qed

theorem C2_columnwidth_single_auto_witness:
  "process_loop sample_validator (init_state (js ''p{3cm}cc'') sample_array) =
     Inr ((init_state (js ''p{3cm}cc'') sample_array)
            \<lparr>i := 8, c := js ''c'', j := 3,
             calign := [Some (js ''left''), Some (js ''center''), Some (js ''center'')],
             cwidth := [Some (js ''3cm'')],
             ralign := [Some (VTOP, Some (js ''3cm''), Some (js ''left''))]\<rparr>)
   \<and> sample_validator (Some (js ''3cm'')) = Some True
   \<and> columnwidth (projr (process sample_validator (js ''p{3cm}cc'') sample_array)) =
       Some (js ''3cm auto'')
   \<and> tokens (js ''3cm auto'') = [js ''3cm'', js ''auto'']"
proof -
  have l: "process_loop sample_validator (init_state (js ''p{3cm}cc'') sample_array) =
     Inr ((init_state (js ''p{3cm}cc'') sample_array)
            \<lparr>i := 8, c := js ''c'', j := 3,
             calign := [Some (js ''left''), Some (js ''center''), Some (js ''center'')],
             cwidth := [Some (js ''3cm'')],
             ralign := [Some (VTOP, Some (js ''3cm''), Some (js ''left''))]\<rparr>)"
    by (simp add: eval_simps sample_validator_def sample_array_def)
  have v: "sample_validator (Some (js ''3cm'')) = Some True"
    by (simp add: sample_validator_def)
  have f: "columnwidth (finalize ((init_state (js ''p{3cm}cc'') sample_array)
            \<lparr>i := 8, c := js ''c'', j := 3,
             calign := [Some (js ''left''), Some (js ''center''), Some (js ''center'')],
             cwidth := [Some (js ''3cm'')],
             ralign := [Some (VTOP, Some (js ''3cm''), Some (js ''left''))]\<rparr>) sample_array) =
       Some (js ''3cm auto'')"
    by (simp add: finalize_columnwidth or_else_def js_def)
  have t: "tokens (js ''3cm auto'') = [js ''3cm'', js ''auto'']"
    by (simp add: tokens_def js_def)
  from C2_columnwidth_single_auto [of sample_validator "js ''p{3cm}cc''" sample_array
      "(init_state (js ''p{3cm}cc'') sample_array)
            \<lparr>i := 8, c := js ''c'', j := 3,
             calign := [Some (js ''left''), Some (js ''center''), Some (js ''center'')],
             cwidth := [Some (js ''3cm'')],
             ralign := [Some (VTOP, Some (js ''3cm''), Some (js ''left''))]\<rparr>"] l v t f
  show ?thesis by simp
qed

text \<open>
  C2 as stated pads \<open>cwidth\<close> up to the length of \<open>calign\<close>; on \<^verbatim>\<open>p{3cm}cc\<close> the code
  gives the two tokens \<^verbatim>\<open>3cm auto\<close> for three columns.
\<close>

theorem C2_columnwidth_counterexample:
  "(case process_loop sample_validator (init_state (js ''p{3cm}cc'') sample_array) of
      Inl e \<Rightarrow> False
    | Inr st \<Rightarrow>
        process sample_validator (js ''p{3cm}cc'') sample_array = Inr (finalize st sample_array)
        \<and> length (calign st) = 3 \<and> length (cwidth st) = 1
        \<and> columnwidth (finalize st sample_array) = Some (js ''3cm auto'')
        \<and> tokens (js ''3cm auto'') = [js ''3cm'', js ''auto'']
        \<and> length (tokens (js ''3cm auto'')) \<noteq> length (calign st))"
  by (simp add: eval_simps sample_validator_def sample_array_def tokens_def)

subsection \<open>C3: a specifier without its argument\<close>

text \<open>
  C3, what the code does where the claim expects \<^verbatim>\<open>MissingArgForColumn\<close>. The guard of
  \<^verbatim>\<open>getBraces\<close> compares the cursor with \<^verbatim>\<open>>\<close> against the length of the template, and the
  cursor is never beyond the length when \<^verbatim>\<open>getBraces\<close> is called: for no validator, template
  and array item does \<^verbatim>\<open>process\<close> raise \<^verbatim>\<open>MissingArgForColumn\<close>. With the cursor (after the
  spaces) at the end of the template, \<^verbatim>\<open>getBraces\<close> returns \<^verbatim>\<open>undefined\<close> and moves the cursor
  one past the end. So \<^verbatim>\<open>process("p", array)\<close> hands \<^verbatim>\<open>undefined\<close> to the validator and ends as
  the validator decides, \<^verbatim>\<open>process("@", array)\<close> returns normally, and \<^verbatim>\<open>process("w", array)\<close>
  fails with the \<^verbatim>\<open>TypeError\<close> of \<^verbatim>\<open>align.toLowerCase()\<close> on \<^verbatim>\<open>undefined\<close>.
\<close>

theorem C3_missing_argument_at_end:
  "process md t a \<noteq> Inl (MissingArgForColumn x)
   \<and> (skip_spaces (template s) (i s) = length (template s) \<longrightarrow>
        getBraces s = Inr (None, s\<lparr>i := length (template s) + 1\<rparr>))
   \<and> process md (js ''p'') a =
       (case md None of
          None \<Rightarrow> Inl ValidatorError
        | Some ok \<Rightarrow>
            if \<not> ok then Inl (MissingColumnDimOrUnits (js ''p''))
            else Inr (a\<lparr>columnalign := Some (js ''left''),
                        columnwidth := Some (js ''auto''),
                        ArrayItem.ralign := arr_set (ArrayItem.ralign a) 0
                           (Some (VTOP, None, Some (js ''left'')))\<rparr>))
   \<and> process md (js ''@'') a = Inr (a\<lparr>columnalign := Some (js '''')\<rparr>)
   \<and> process md (js ''w'') a = Inl TypeError"
proof -
  have never: "process md t a \<noteq> Inl (MissingArgForColumn x)"
    using process_loop_no_missing [of md "init_state t a" x]
    by (auto simp: process_def split: sum.splits)
  have p: "process md (js ''p'') a =
       (case md None of
          None \<Rightarrow> Inl ValidatorError
        | Some ok \<Rightarrow>
            if \<not> ok then Inl (MissingColumnDimOrUnits (js ''p''))
            else Inr (a\<lparr>columnalign := Some (js ''left''),
                        columnwidth := Some (js ''auto''),
                        ArrayItem.ralign := arr_set (ArrayItem.ralign a) 0
                           (Some (VTOP, None, Some (js ''left'')))\<rparr>))"
    by (cases "md None") (simp_all add: eval_simps)
  have at: "process md (js ''@'') a = Inr (a\<lparr>columnalign := Some (js '''')\<rparr>)"
    by (simp add: eval_simps)
  have w: "process md (js ''w'') a = Inl TypeError"
    by (simp add: eval_simps)
  from never getBraces_at_end p at w show ?thesis by blast
qed

theorem C3_missing_argument_at_end_witness:
  "skip_spaces (js ''p'') 1 = length (js ''p'')
   \<and> getBraces ((init_state (js ''p'') sample_array)\<lparr>c := js ''p'', i := 1\<rparr>) =
       Inr (None, (init_state (js ''p'') sample_array)\<lparr>c := js ''p'', i := 2\<rparr>)
   \<and> process sample_validator (js ''p'') sample_array = Inl ValidatorError
   \<and> process sample_validator (js ''@'') sample_array =
       Inr (sample_array\<lparr>columnalign := Some (js '''')\<rparr>)"
  using C3_missing_argument_at_end [of sample_validator "js ''p''" sample_array "js ''p''"
      "(init_state (js ''p'') sample_array)\<lparr>c := js ''p'', i := 1\<rparr>"]
  by (simp add: init_state_def js_def skip_spaces.simps str_index_def sample_validator_def)

subsection \<open>C4: the brace reader\<close>

text \<open>
  C4. \<^verbatim>\<open>getBraces\<close> skips the spaces under the cursor: \<open>k\<close>, where the skipping stops, is
  not before the cursor, every position from the cursor up to \<open>k\<close> holds a space and
  position \<open>k\<close> does not. If the character at \<open>k\<close> is not an opening brace, that one
  character is the result and the cursor is \<open>k + 1\<close>. If it is an opening brace, the
  characters after it are scanned with a nesting depth as \<open>match_close\<close> says: when the depth
  reaches 0 at offset \<open>n\<close>, the result is the \<open>n\<close> characters strictly between the outer
  braces, the character at \<open>k + 1 + n\<close> is the closing brace and the cursor is just past it;
  when the input ends first, \<^verbatim>\<open>MissingCloseBrace\<close> is raised. On \<^verbatim>\<open>{a{b}c}\<close> the result is
  \<^verbatim>\<open>a{b}c\<close> with the cursor at the end, and on the six characters \<^verbatim>\<open>{a\}b}\<close> (an escaped
  closing brace) it is the four characters \<^verbatim>\<open>a\}b\<close>.
\<close>

theorem C4_getBraces:
  "(skip_spaces (template s) (i s) = k \<longrightarrow>
      i s \<le> k
      \<and> (\<forall>n. i s \<le> n \<and> n < k \<longrightarrow> n < length (template s) \<and> template s ! n = of_char CHR '' '')
      \<and> \<not> (k < length (template s) \<and> template s ! k = of_char CHR '' '')
      \<and> (k < length (template s) \<and> template s ! k \<noteq> of_char CHR ''{'' \<longrightarrow>
           getBraces s = Inr (Some [template s ! k], s\<lparr>i := k + 1\<rparr>))
      \<and> (k < length (template s) \<and> template s ! k = of_char CHR ''{'' \<longrightarrow>
           getBraces s =
             (case match_close (drop (k + 1) (template s)) 1 of
                None \<Rightarrow> Inl MissingCloseBrace
              | Some n \<Rightarrow> Inr (Some (take n (drop (k + 1) (template s))), s\<lparr>i := k + 1 + n + 1\<rparr>))
           \<and> (\<forall>n. match_close (drop (k + 1) (template s)) 1 = Some n \<longrightarrow>
                 k + 1 + n < length (template s)
                 \<and> template s ! (k + 1 + n) = of_char CHR ''}'')))
   \<and> getBraces (init_state (js ''{a{b}c}'') a) =
       Inr (Some (js ''a{b}c''), (init_state (js ''{a{b}c}'') a)\<lparr>i := 7\<rparr>)
   \<and> getBraces (init_state (js ''{a'' @ backslash # js ''}b}'') a) =
       Inr (Some (js ''a'' @ backslash # js ''}b''),
            (init_state (js ''{a'' @ backslash # js ''}b}'') a)\<lparr>i := 6\<rparr>)"
proof -
  have general: "i s \<le> k
      \<and> (\<forall>n. i s \<le> n \<and> n < k \<longrightarrow> n < length (template s) \<and> template s ! n = of_char CHR '' '')
      \<and> \<not> (k < length (template s) \<and> template s ! k = of_char CHR '' '')
      \<and> (k < length (template s) \<and> template s ! k \<noteq> of_char CHR ''{'' \<longrightarrow>
           getBraces s = Inr (Some [template s ! k], s\<lparr>i := k + 1\<rparr>))
      \<and> (k < length (template s) \<and> template s ! k = of_char CHR ''{'' \<longrightarrow>
           getBraces s =
             (case match_close (drop (k + 1) (template s)) 1 of
                None \<Rightarrow> Inl MissingCloseBrace
              | Some n \<Rightarrow> Inr (Some (take n (drop (k + 1) (template s))), s\<lparr>i := k + 1 + n + 1\<rparr>))
           \<and> (\<forall>n. match_close (drop (k + 1) (template s)) 1 = Some n \<longrightarrow>
                 k + 1 + n < length (template s)
                 \<and> template s ! (k + 1 + n) = of_char CHR ''}''))"
    if k: "skip_spaces (template s) (i s) = k"
  proof -
    have a: "i s \<le> k" using skip_spaces_ge [of "i s" "template s"] k by simp
    have b: "\<forall>n. i s \<le> n \<and> n < k \<longrightarrow> n < length (template s) \<and> template s ! n = of_char CHR '' ''"
      and c': "\<not> (k < length (template s) \<and> template s ! k = of_char CHR '' '')"
      using skip_spaces_spec [of "i s" "template s"] k by blast+
    have d: "getBraces s = Inr (Some [template s ! k], s\<lparr>i := k + 1\<rparr>)"
      if "k < length (template s)" "template s ! k \<noteq> of_char CHR ''{''"
      using getBraces_token [OF k that] .
    have e: "getBraces s =
             (case match_close (drop (k + 1) (template s)) 1 of
                None \<Rightarrow> Inl MissingCloseBrace
              | Some n \<Rightarrow> Inr (Some (take n (drop (k + 1) (template s))), s\<lparr>i := k + 1 + n + 1\<rparr>))"
      if "k < length (template s)" "template s ! k = of_char CHR ''{''"
      using getBraces_group [OF k that] .
    have f: "k + 1 + n < length (template s) \<and> template s ! (k + 1 + n) = of_char CHR ''}''"
      if "match_close (drop (k + 1) (template s)) 1 = Some n" for n
    proof -
      from match_close_brace [OF that] have n: "n < length (template s) - (k + 1)"
        and dn: "drop (k + 1) (template s) ! n = of_char CHR ''}''" by simp_all
      from n have "k + 1 + n < length (template s)" by simp
      moreover from this dn have "template s ! (k + 1 + n) = of_char CHR ''}''"
        by (simp only: nth_drop [of "k + 1" "template s" n] less_imp_le_nat)
      ultimately show ?thesis by blast
    qed
    from a b c' d e f show ?thesis by blast
  qed
  have ex1: "getBraces (init_state (js ''{a{b}c}'') a) =
       Inr (Some (js ''a{b}c''), (init_state (js ''{a{b}c}'') a)\<lparr>i := 7\<rparr>)"
    by (simp add: eval_simps)
  have ex2: "getBraces (init_state (js ''{a'' @ backslash # js ''}b}'') a) =
       Inr (Some (js ''a'' @ backslash # js ''}b''),
            (init_state (js ''{a'' @ backslash # js ''}b}'') a)\<lparr>i := 6\<rparr>)"
    by (simp add: eval_simps)
  from general ex1 ex2 show ?thesis by blast
qed

theorem C4_getBraces_witness:
  "skip_spaces (js ''  xy'') 0 = 2
   \<and> getBraces (init_state (js ''  xy'') sample_array) =
       Inr (Some (js ''x''), (init_state (js ''  xy'') sample_array)\<lparr>i := 3\<rparr>)
   \<and> skip_spaces (js '' {a{b}c}d'') 0 = 1
   \<and> match_close (js ''a{b}c}d'') 1 = Some 5
   \<and> getBraces (init_state (js '' {a{b}c}d'') sample_array) =
       Inr (Some (js ''a{b}c''), (init_state (js '' {a{b}c}d'') sample_array)\<lparr>i := 8\<rparr>)
   \<and> match_close (js ''a{b'') 1 = None
   \<and> getBraces (init_state (js ''{a{b'') sample_array) = Inl MissingCloseBrace"
  using C4_getBraces [of "init_state (js ''  xy'') sample_array" 2 sample_array]
    C4_getBraces [of "init_state (js '' {a{b}c}d'') sample_array" 1 sample_array]
    C4_getBraces [of "init_state (js ''{a{b'') sample_array" 0 sample_array]
  by (simp add: init_state_def js_def skip_spaces.simps str_index_def backslash_def)

subsection \<open>C5: boxed columns and their width\<close>

text \<open>
  C5. When the loop stands at \<^verbatim>\<open>p\<close>, \<^verbatim>\<open>m\<close> or \<^verbatim>\<open>b\<close> and \<^verbatim>\<open>getBraces\<close> reads the argument
  \<open>dim\<close> after it: if the validator accepts \<open>dim\<close>, the iteration writes the alignment
  \<^verbatim>\<open>left\<close> into \<open>calign\<close>, the width into \<open>cwidth\<close> and the triple of vertical class, width and
  alignment into \<open>ralign\<close>, all at the index \<open>j\<close>, and increments \<open>j\<close>; if the validator
  rejects \<open>dim\<close>, the iteration and with it the loop raise \<^verbatim>\<open>MissingColumnDimOrUnits\<close> naming
  the specifier. When the validator accepts \<^verbatim>\<open>3cm\<close>, \<^verbatim>\<open>process("p{3cm}c", array)\<close> gives
  \<^verbatim>\<open>ralign[0] = (VTOP, "3cm", "left")\<close> and \<open>columnwidth\<close> \<^verbatim>\<open>3cm auto\<close>; when it rejects \<^verbatim>\<open>nope\<close>,
  \<^verbatim>\<open>process("p{nope}", array)\<close> raises \<^verbatim>\<open>MissingColumnDimOrUnits\<close> naming \<^verbatim>\<open>p\<close>.
\<close>

theorem C5_boxed_columns:
  "(i s < length (template s) \<longrightarrow>
    template s ! i s \<in> {of_char CHR ''p'', of_char CHR ''m'', of_char CHR ''b''} \<longrightarrow>
    getBraces (s\<lparr>c := [template s ! i s], i := i s + 1\<rparr>) = Inr (dim, s2) \<longrightarrow>
      (md dim = Some True \<longrightarrow>
         process_step md s =
           Inr (s\<lparr>c := [template s ! i s], i := i s2,
                  calign := arr_set (calign s) (j s) (Some (js ''left'')),
                  cwidth := arr_set (cwidth s) (j s) dim,
                  ralign := arr_set (ralign s) (j s)
                     (Some (vclass_of (template s ! i s), dim, Some (js ''left''))),
                  j := j s + 1\<rparr>))
      \<and> (md dim = Some False \<longrightarrow>
         process_step md s = Inl (MissingColumnDimOrUnits [template s ! i s])
         \<and> process_loop md s = Inl (MissingColumnDimOrUnits [template s ! i s])))
   \<and> (md (Some (js ''3cm'')) = Some True \<longrightarrow>
        process md (js ''p{3cm}c'') a =
          Inr (a\<lparr>columnalign := Some (js ''left center''),
                 columnwidth := Some (js ''3cm auto''),
                 ArrayItem.ralign := arr_set (ArrayItem.ralign a) 0
                    (Some (VTOP, Some (js ''3cm''), Some (js ''left'')))\<rparr>)
        \<and> arr_get (arr_set (ArrayItem.ralign a) 0
                    (Some (VTOP, Some (js ''3cm''), Some (js ''left'')))) 0 =
            Some (VTOP, Some (js ''3cm''), Some (js ''left'')))
   \<and> (md (Some (js ''nope'')) = Some False \<longrightarrow>
        process md (js ''p{nope}'') a = Inl (MissingColumnDimOrUnits (js ''p'')))"
proof -
  have ok: "process_step md s =
           Inr (s\<lparr>c := [template s ! i s], i := i s2,
                  calign := arr_set (calign s) (j s) (Some (js ''left'')),
                  cwidth := arr_set (cwidth s) (j s) dim,
                  ralign := arr_set (ralign s) (j s)
                     (Some (vclass_of (template s ! i s), dim, Some (js ''left''))),
                  j := j s + 1\<rparr>)"
    if "template s ! i s \<in> {of_char CHR ''p'', of_char CHR ''m'', of_char CHR ''b''}"
      "getBraces (s\<lparr>c := [template s ! i s], i := i s + 1\<rparr>) = Inr (dim, s2)"
      "md dim = Some True"
    using step_pmb [OF that(1,2), of md] that(3) by simp
  have bad: "process_step md s = Inl (MissingColumnDimOrUnits [template s ! i s])"
    if "template s ! i s \<in> {of_char CHR ''p'', of_char CHR ''m'', of_char CHR ''b''}"
      "getBraces (s\<lparr>c := [template s ! i s], i := i s + 1\<rparr>) = Inr (dim, s2)"
      "md dim = Some False"
    using step_pmb [OF that(1,2), of md] that(3) by simp
  have bad_loop: "process_loop md s = Inl (MissingColumnDimOrUnits [template s ! i s])"
    if "template s ! i s \<in> {of_char CHR ''p'', of_char CHR ''m'', of_char CHR ''b''}"
      "getBraces (s\<lparr>c := [template s ! i s], i := i s + 1\<rparr>) = Inr (dim, s2)"
      "md dim = Some False" "i s < length (template s)"
    using bad [OF that(1,2,3)] that(4) by (simp add: process_loop_step)
  have ex1: "process md (js ''p{3cm}c'') a =
          Inr (a\<lparr>columnalign := Some (js ''left center''),
                 columnwidth := Some (js ''3cm auto''),
                 ArrayItem.ralign := arr_set (ArrayItem.ralign a) 0
                    (Some (VTOP, Some (js ''3cm''), Some (js ''left'')))\<rparr>)"
    if "md (Some (js ''3cm'')) = Some True"
    using that by (simp add: eval_simps)
  have ex2: "process md (js ''p{nope}'') a = Inl (MissingColumnDimOrUnits (js ''p''))"
    if "md (Some (js ''nope'')) = Some False"
    using that by (simp add: eval_simps)
  from ok bad bad_loop ex1 ex2 arr_get_set_same show ?thesis by blast
qed

theorem C5_boxed_columns_witness:
  "getBraces ((init_state (js ''p{3cm}c'') sample_array)\<lparr>c := js ''p'', i := 1\<rparr>) =
     Inr (Some (js ''3cm''), (init_state (js ''p{3cm}c'') sample_array)\<lparr>c := js ''p'', i := 6\<rparr>)
   \<and> sample_validator (Some (js ''3cm'')) = Some True
   \<and> process_step sample_validator (init_state (js ''p{3cm}c'') sample_array) =
       Inr ((init_state (js ''p{3cm}c'') sample_array)
             \<lparr>c := js ''p'', i := 6, calign := [Some (js ''left'')], cwidth := [Some (js ''3cm'')],
              ralign := [Some (VTOP, Some (js ''3cm''), Some (js ''left''))], j := 1\<rparr>)
   \<and> sample_validator (Some (js ''nope'')) = Some False
   \<and> process_loop sample_validator (init_state (js ''p{nope}'') sample_array) =
       Inl (MissingColumnDimOrUnits (js ''p''))
   \<and> columnwidth (projr (process sample_validator (js ''p{3cm}c'') sample_array)) = Some (js ''3cm auto'')
   \<and> process sample_validator (js ''p{nope}'') sample_array = Inl (MissingColumnDimOrUnits (js ''p''))"
proof -
  have g1: "getBraces ((init_state (js ''p{3cm}c'') sample_array)\<lparr>c := js ''p'', i := 1\<rparr>) =
     Inr (Some (js ''3cm''), (init_state (js ''p{3cm}c'') sample_array)\<lparr>c := js ''p'', i := 6\<rparr>)"
    by (simp add: eval_simps)
  have g2: "getBraces ((init_state (js ''p{nope}'') sample_array)\<lparr>c := js ''p'', i := 1\<rparr>) =
     Inr (Some (js ''nope''), (init_state (js ''p{nope}'') sample_array)\<lparr>c := js ''p'', i := 7\<rparr>)"
    by (simp add: eval_simps)
  have v: "sample_validator (Some (js ''3cm'')) = Some True"
    "sample_validator (Some (js ''nope'')) = Some False"
    by (simp_all add: sample_validator_def js_def)
  from C5_boxed_columns [of "init_state (js ''p{3cm}c'') sample_array" "Some (js ''3cm'')"
      "(init_state (js ''p{3cm}c'') sample_array)\<lparr>c := js ''p'', i := 6\<rparr>" sample_validator sample_array]
    C5_boxed_columns [of "init_state (js ''p{nope}'') sample_array" "Some (js ''nope'')"
      "(init_state (js ''p{nope}'') sample_array)\<lparr>c := js ''p'', i := 7\<rparr>" sample_validator sample_array]
    g1 g2 v
  show ?thesis
    by (simp add: init_state_def js_def arr_set_def vclass_of_def sample_array_def)
qed

subsection \<open>C6: templates of simple alignments\<close>

text \<open>
  C6. For every template that consists only of the characters \<^verbatim>\<open>l\<close>, \<^verbatim>\<open>c\<close> and \<^verbatim>\<open>r\<close>,
  \<^verbatim>\<open>process\<close> returns normally and changes nothing but \<open>columnalign\<close>, which becomes the
  space-joined list of \<^verbatim>\<open>left\<close>, \<^verbatim>\<open>center\<close> and \<^verbatim>\<open>right\<close> for the characters of the template in
  their order: its tokens are exactly these keywords, one per input character.
\<close>

theorem C6_simple_alignments:
  assumes "set t \<subseteq> {of_char CHR ''l'', of_char CHR ''c'', of_char CHR ''r''}"
  shows "process md t a =
           Inr (a\<lparr>columnalign := Some (join (js '' '') (map (\<lambda>u. Some (align_of u)) t))\<rparr>)
         \<and> tokens (join (js '' '') (map (\<lambda>u. Some (align_of u)) t)) = map align_of t
         \<and> length (tokens (join (js '' '') (map (\<lambda>u. Some (align_of u)) t))) = length t"
proof -
  from lcr_loop [of "init_state t a" md] assms obtain s' where
    l: "process_loop md (init_state t a) = Inr s'" and
    s': "calign s' = map (\<lambda>u. Some (align_of u)) t" "cwidth s' = []" "clines s' = []"
      "ralign s' = ArrayItem.ralign a"
    by (auto simp: init_state_def)
  have p: "process md t a =
           Inr (a\<lparr>columnalign := Some (join (js '' '') (map (\<lambda>u. Some (align_of u)) t))\<rparr>)"
    using l s' by (simp add: process_def finalize_def)
  have "\<forall>w \<in> set (map align_of t). w \<noteq> [] \<and> of_char CHR '' '' \<notin> set w"
    using align_of_token by auto
  from tokens_join [OF this] have "tokens (join (js '' '') (map (\<lambda>u. Some (align_of u)) t)) = map align_of t"
    by (simp add: comp_def)
  with p show ?thesis by simp
qed

theorem C6_simple_alignments_witness:
  "set (js ''lcrl'') \<subseteq> {of_char CHR ''l'', of_char CHR ''c'', of_char CHR ''r''}
   \<and> process sample_validator (js ''lcrl'') sample_array =
       Inr (sample_array\<lparr>columnalign := Some (js ''left center right left'')\<rparr>)
   \<and> tokens (js ''left center right left'') = [js ''left'', js ''center'', js ''right'', js ''left'']"
proof -
  have h: "set (js ''lcrl'') \<subseteq> {of_char CHR ''l'', of_char CHR ''c'', of_char CHR ''r''}"
    by (simp add: js_def)
  have e: "join (js '' '') (map (\<lambda>u. Some (align_of u)) (js ''lcrl'')) = js ''left center right left''"
    by (simp add: js_def align_of_def)
  have m: "map align_of (js ''lcrl'') = [js ''left'', js ''center'', js ''right'', js ''left'']"
    by (simp add: js_def align_of_def)
  from C6_simple_alignments [OF h, of sample_validator sample_array] h show ?thesis
    unfolding e m by simp
qed

subsection \<open>C7: unknown column specifiers\<close>

text \<open>
  C7. In whatever state the loop stands, when the character under the cursor (one code
  point, as \<^verbatim>\<open>codePointAt\<close> reads it) has no entry in the handler table, the loop ends
  there with \<^verbatim>\<open>BadColumnCharacter\<close> reporting that character; so does \<^verbatim>\<open>process\<close> when this
  is the first character of the template, and \<^verbatim>\<open>process("x", array)\<close> reports \<^verbatim>\<open>x\<close>.
  Conversely a \<^verbatim>\<open>BadColumnCharacter\<close> that \<^verbatim>\<open>process\<close> raises never reports a character with
  an entry in the table: none of the fifteen registered specifiers is ever reported.
\<close>

theorem C7_bad_column_character:
  "(i s < length (template s) \<longrightarrow>
      \<not> hasOwnProperty (columnHandler md) (fromCodePoint (codePointAt (template s) (i s))) \<longrightarrow>
      process_loop md s = Inl (BadColumnCharacter (fromCodePoint (codePointAt (template s) (i s)))))
   \<and> (t \<noteq> [] \<longrightarrow> \<not> hasOwnProperty (columnHandler md) (fromCodePoint (codePointAt t 0)) \<longrightarrow>
      process md t a = Inl (BadColumnCharacter (fromCodePoint (codePointAt t 0))))
   \<and> process md (js ''x'') a = Inl (BadColumnCharacter (js ''x''))
   \<and> (process md t a = Inl (BadColumnCharacter ch) \<longrightarrow> \<not> hasOwnProperty (columnHandler md) ch)
   \<and> (\<forall>k \<in> set (map js [''l'', ''c'', ''r'', ''p'', ''m'', ''b'', ''w'', ''W'',
                           ''|'', '':'', ''>'', ''<'', ''@'', ''!'', '' '']).
        hasOwnProperty (columnHandler md) k \<and> process md t a \<noteq> Inl (BadColumnCharacter k))"
proof -
  have abort: "process_loop md s' = Inl (BadColumnCharacter (fromCodePoint (codePointAt (template s') (i s'))))"
    if "i s' < length (template s')"
      and "\<not> hasOwnProperty (columnHandler md) (fromCodePoint (codePointAt (template s') (i s')))"
    for s'
    using that by (simp add: process_loop_step process_step_def Let_def)
  have first: "process md t a = Inl (BadColumnCharacter (fromCodePoint (codePointAt t 0)))"
    if "t \<noteq> []" and "\<not> hasOwnProperty (columnHandler md) (fromCodePoint (codePointAt t 0))"
    using abort [of "init_state t a"] that by (simp add: process_def init_state_def)
  have x: "process md (js ''x'') a = Inl (BadColumnCharacter (js ''x''))"
    by (simp add: eval_simps)
  have never: "\<not> hasOwnProperty (columnHandler md) ch'"
    if "process md t a = Inl (BadColumnCharacter ch')" for ch'
  proof -
    from that have "process_loop md (init_state t a) = Inl (BadColumnCharacter ch')"
      by (simp add: process_def split: sum.splits)
    then show ?thesis by (rule process_loop_bad_char)
  qed
  have reg: "hasOwnProperty (columnHandler md) k \<and> process md t a \<noteq> Inl (BadColumnCharacter k)"
    if "k \<in> set (map js [''l'', ''c'', ''r'', ''p'', ''m'', ''b'', ''w'', ''W'',
                           ''|'', '':'', ''>'', ''<'', ''@'', ''!'', '' ''])" for k
    using that never [of k] hasOwnProperty_columnHandler [of md k] by blast
  from abort first x never reg show ?thesis by blast
qed

theorem C7_bad_column_character_witness:
  "process_loop sample_validator (init_state (js ''x'') sample_array) = Inl (BadColumnCharacter (js ''x''))
   \<and> process sample_validator (js ''x'') sample_array = Inl (BadColumnCharacter (js ''x''))
   \<and> \<not> hasOwnProperty (columnHandler sample_validator) (js ''x'')
   \<and> hasOwnProperty (columnHandler sample_validator) (js ''l'')
   \<and> process sample_validator (js ''x'') sample_array \<noteq> Inl (BadColumnCharacter (js ''l''))"
  using C7_bad_column_character [of "init_state (js ''x'') sample_array" sample_validator
      "js ''x''" sample_array "js ''x''"]
  by (simp add: init_state_def fromCodePoint_codePointAt is_pair_def js_def
      hasOwnProperty_def columnHandler_def)

subsection \<open>C8: the column index\<close>

text \<open>
  C8. Every iteration of the loop that returns is of one of two kinds. At a column-producing
  specifier (\<^verbatim>\<open>l c r p m b w W\<close>) it writes \<open>calign\<close> at the current index \<open>j\<close>, and either leaves
  \<open>cwidth\<close> and \<open>ralign\<close> alone or writes both at \<open>j\<close> as well, and then increments \<open>j\<close> by one.
  At any other specifier, in particular at \<^verbatim>\<open>|\<close>, \<^verbatim>\<open>:\<close>, \<^verbatim>\<open>>\<close>, \<^verbatim>\<open><\<close>, \<^verbatim>\<open>@\<close>, \<^verbatim>\<open>!\<close> and space, it
  changes none of \<open>j\<close>, \<open>calign\<close>, \<open>cwidth\<close> and \<open>ralign\<close>. So over the loop the entries below
  the current \<open>j\<close> are never written again, and when the loop returns \<open>j\<close> has grown by the
  number of column-producing specifiers among those it dispatched; from the initial state of
  \<^verbatim>\<open>process\<close>, \<open>j\<close> is that number.
\<close>

theorem C8_column_index:
  "(i s < length (template s) \<longrightarrow> process_step md s = Inr s1 \<longrightarrow>
      (producing (c s1) \<longrightarrow>
         j s1 = j s + 1
         \<and> (\<exists>v. calign s1 = arr_set (calign s) (j s) v)
         \<and> (cwidth s1 = cwidth s \<and> ralign s1 = ralign s
            \<or> (\<exists>w r. cwidth s1 = arr_set (cwidth s) (j s) w
                    \<and> ralign s1 = arr_set (ralign s) (j s) r)))
      \<and> (\<not> producing (c s1) \<longrightarrow>
         j s1 = j s \<and> calign s1 = calign s \<and> cwidth s1 = cwidth s \<and> ralign s1 = ralign s)
      \<and> (c s1 \<in> set (map js [''|'', '':'', ''>'', ''<'', ''@'', ''!'', '' '']) \<longrightarrow> j s1 = j s))
   \<and> (process_loop md s = Inr s' \<longrightarrow>
      j s' = j s + length (filter producing (dispatched md s))
      \<and> (\<forall>k < j s. arr_get (calign s') k = arr_get (calign s) k
            \<and> arr_get (cwidth s') k = arr_get (cwidth s) k
            \<and> arr_get (ralign s') k = arr_get (ralign s) k))
   \<and> (process_loop md (init_state t a) = Inr st \<longrightarrow>
      j st = length (filter producing (dispatched md (init_state t a))))"
proof -
  have step: "(producing (c s1) \<longrightarrow>
         j s1 = j s + 1
         \<and> (\<exists>v. calign s1 = arr_set (calign s) (j s) v)
         \<and> (cwidth s1 = cwidth s \<and> ralign s1 = ralign s
            \<or> (\<exists>w r. cwidth s1 = arr_set (cwidth s) (j s) w
                    \<and> ralign s1 = arr_set (ralign s) (j s) r)))
      \<and> (\<not> producing (c s1) \<longrightarrow>
         j s1 = j s \<and> calign s1 = calign s \<and> cwidth s1 = cwidth s \<and> ralign s1 = ralign s)"
    if "process_step md s = Inr s1"
    using process_step_write [OF that] by (simp add: column_write_def split: if_splits)
  have border: "j s1 = j s"
    if "process_step md s = Inr s1"
      "c s1 \<in> set (map js [''|'', '':'', ''>'', ''<'', ''@'', ''!'', '' ''])"
  proof -
    from that(2) have "\<not> producing (c s1)"
      by (auto simp: producing_def js_def)
    with step [OF that(1)] show ?thesis by blast
  qed
  have loop: "j s' = j s + length (filter producing (dispatched md s))
      \<and> (\<forall>k < j s. arr_get (calign s') k = arr_get (calign s) k
            \<and> arr_get (cwidth s') k = arr_get (cwidth s) k
            \<and> arr_get (ralign s') k = arr_get (ralign s) k)"
    if "process_loop md s = Inr s'"
    using that by (rule process_loop_columns)
  have whole: "j st = length (filter producing (dispatched md (init_state t a)))"
    if "process_loop md (init_state t a) = Inr st"
    using process_loop_columns [OF that] by (simp add: init_state_def)
  from step border loop whole show ?thesis by blast
qed

theorem C8_column_index_witness:
  "process_step sample_validator (init_state (js ''|l!{x}c'') sample_array) =
     Inr ((init_state (js ''|l!{x}c'') sample_array)
            \<lparr>c := js ''|'', i := 1, clines := [Some (js ''solid'')]\<rparr>)
   \<and> \<not> producing (js ''|'')
   \<and> process_step sample_validator
        ((init_state (js ''|l!{x}c'') sample_array)
            \<lparr>c := js ''|'', i := 1, clines := [Some (js ''solid'')]\<rparr>) =
     Inr ((init_state (js ''|l!{x}c'') sample_array)
            \<lparr>c := js ''l'', i := 2, clines := [Some (js ''solid'')],
             calign := [Some (js ''left'')], j := 1\<rparr>)
   \<and> producing (js ''l'')
   \<and> process_loop sample_validator
        ((init_state (js ''|l!{x}c'') sample_array)
            \<lparr>c := js ''l'', i := 2, clines := [Some (js ''solid'')],
             calign := [Some (js ''left'')], j := 1\<rparr>) =
     Inr ((init_state (js ''|l!{x}c'') sample_array)
            \<lparr>c := js ''c'', i := 7, j := 2,
             calign := [Some (js ''left''), Some (js ''center'')],
             clines := [Some (js ''solid'')]\<rparr>)
   \<and> dispatched sample_validator
        ((init_state (js ''|l!{x}c'') sample_array)
            \<lparr>c := js ''l'', i := 2, clines := [Some (js ''solid'')],
             calign := [Some (js ''left'')], j := 1\<rparr>) = [js ''!'', js ''c'']
   \<and> arr_get [Some (js ''left''), Some (js ''center'')] 0 = arr_get [Some (js ''left'')] 0
   \<and> process_loop sample_validator (init_state (js ''|l!{x}c'') sample_array) =
     Inr ((init_state (js ''|l!{x}c'') sample_array)
            \<lparr>c := js ''c'', i := 7, j := 2,
             calign := [Some (js ''left''), Some (js ''center'')],
             clines := [Some (js ''solid'')]\<rparr>)
   \<and> dispatched sample_validator (init_state (js ''|l!{x}c'') sample_array) =
       [js ''|'', js ''l'', js ''!'', js ''c'']
   \<and> length (filter producing [js ''|'', js ''l'', js ''!'', js ''c'']) = 2"
proof -
  define s0 where "s0 = init_state (js ''|l!{x}c'') sample_array"
  define s1 where "s1 = s0\<lparr>c := js ''|'', i := 1, clines := [Some (js ''solid'')]\<rparr>"
  define s2 where "s2 = s0\<lparr>c := js ''l'', i := 2, clines := [Some (js ''solid'')],
             calign := [Some (js ''left'')], j := 1\<rparr>"
  define s3 where "s3 = s0\<lparr>c := js ''c'', i := 7, j := 2,
             calign := [Some (js ''left''), Some (js ''center'')],
             clines := [Some (js ''solid'')]\<rparr>"
  have 1: "process_step sample_validator s0 = Inr s1"
    unfolding s0_def s1_def by (simp add: eval_simps)
  have 2: "process_step sample_validator s1 = Inr s2"
    unfolding s0_def s1_def s2_def by (simp add: eval_simps)
  have 3: "process_loop sample_validator s2 = Inr s3"
    unfolding s0_def s2_def s3_def by (simp add: eval_simps)
  have 4: "process_loop sample_validator s0 = Inr s3"
    unfolding s0_def s3_def by (simp add: eval_simps)
  have 5: "dispatched sample_validator s2 = [js ''!'', js ''c'']"
    unfolding s0_def s2_def by (simp add: eval_simps dispatched.simps fromCodePoint_codePointAt)
  have 6: "dispatched sample_validator s0 = [js ''|'', js ''l'', js ''!'', js ''c'']"
    unfolding s0_def by (simp add: eval_simps dispatched.simps fromCodePoint_codePointAt)
  have 7: "\<not> producing (js ''|'')" "producing (js ''l'')"
    "length (filter producing [js ''|'', js ''l'', js ''!'', js ''c'']) = 2"
    by (simp_all add: producing_def js_def)
  have 8: "c s1 = js ''|''" "c s2 = js ''l''" "j s2 = 1" "(0::nat) < j s2"
    "calign s2 = [Some (js ''left'')]" "calign s3 = [Some (js ''left''), Some (js ''center'')]"
    by (simp_all add: s1_def s2_def s3_def)
  have 10: "i s2 < length (template s2)"
    by (simp add: s2_def s0_def init_state_def js_def)
  from C8_column_index [of s2 sample_validator s3 s3 "js ''|l!{x}c''" sample_array s3] 3 8(4) 10
  have "arr_get (calign s3) 0 = arr_get (calign s2) 0" by blast
  then have 9: "arr_get [Some (js ''left''), Some (js ''center'')] 0 = arr_get [Some (js ''left'')] 0"
    by (simp only: 8)
  have "process_step sample_validator s0 = Inr s1
   \<and> \<not> producing (js ''|'')
   \<and> process_step sample_validator s1 = Inr s2
   \<and> producing (js ''l'')
   \<and> process_loop sample_validator s2 = Inr s3
   \<and> dispatched sample_validator s2 = [js ''!'', js ''c'']
   \<and> arr_get [Some (js ''left''), Some (js ''center'')] 0 = arr_get [Some (js ''left'')] 0
   \<and> process_loop sample_validator s0 = Inr s3
   \<and> dispatched sample_validator s0 = [js ''|'', js ''l'', js ''!'', js ''c'']
   \<and> length (filter producing [js ''|'', js ''l'', js ''!'', js ''c'']) = 2"
    using 1 2 3 4 5 6 7 9 by blast
  then show ?thesis
    unfolding s1_def s2_def s3_def s0_def .
qed

subsection \<open>C9: termination\<close>

text \<open>
  C9, what the code does. Every loop of the parser is defined by a recursion whose
  termination is proved on the distance of the cursor from the end of the template, so
  \<^verbatim>\<open>process\<close> returns a result or an error for every validator, template and array item.
  The loop of \<^verbatim>\<open>process\<close> makes at most as many iterations as code units remain after the
  cursor; an iteration that returns leaves the template alone and moves the cursor forward
  by at least one; \<^verbatim>\<open>getBraces\<close> never moves the cursor back; its brace-scanning loop makes
  at most as many iterations as code units remain, and its loop over spaces stops within
  the template. An error of \<^verbatim>\<open>process\<close> is \<^verbatim>\<open>BadColumnCharacter\<close>, \<^verbatim>\<open>MissingColumnDimOrUnits\<close>,
  \<^verbatim>\<open>MissingCloseBrace\<close>, a \<^verbatim>\<open>TypeError\<close> of the runtime or an exception of the validator, and
  \<^verbatim>\<open>process("w", array)\<close> does end with the \<^verbatim>\<open>TypeError\<close>, which is none of the four errors of
  the parser.
\<close>

theorem C9_process_terminates:
  "length (dispatched md s) \<le> length (template s) - i s
   \<and> (i s < length (template s) \<longrightarrow> process_step md s = Inr s1 \<longrightarrow>
        template s1 = template s \<and> i s + 1 \<le> i s1)
   \<and> (getBraces s = Inr (v, s2) \<longrightarrow> template s2 = template s \<and> i s \<le> i s2)
   \<and> brace_iterations tm k braces \<le> length tm - k
   \<and> (k \<le> length tm \<longrightarrow> k \<le> skip_spaces tm k \<and> skip_spaces tm k \<le> length tm)
   \<and> (process md t a = Inl e \<longrightarrow>
        (\<exists>ch. e = BadColumnCharacter ch \<or> e = MissingColumnDimOrUnits ch)
        \<or> e = MissingCloseBrace \<or> e = TypeError \<or> e = ValidatorError)
   \<and> process md (js ''w'') a = Inl TypeError"
proof -
  have step: "template s1 = template s \<and> i s + 1 \<le> i s1" if "process_step md s = Inr s1"
    using process_step_cursor [OF that] by simp
  have braces: "template s2 = template s \<and> i s \<le> i s2" if "getBraces s = Inr (v, s2)"
    using getBraces_ex [OF that] by auto
  have skip: "k \<le> skip_spaces tm k \<and> skip_spaces tm k \<le> length tm" if "k \<le> length tm"
    using skip_spaces_ge [of k tm] skip_spaces_le [OF that] by simp
  have errs: "(\<exists>ch. e = BadColumnCharacter ch \<or> e = MissingColumnDimOrUnits ch)
        \<or> e = MissingCloseBrace \<or> e = TypeError \<or> e = ValidatorError"
    if "process md t a = Inl e"
  proof -
    from that have l: "process_loop md (init_state t a) = Inl e"
      by (simp add: process_def split: sum.splits)
    from process_loop_errors [OF l] obtain ch where
      "e = BadColumnCharacter ch \<or> e \<in> handler_errors ch" by blast
    moreover from process_loop_no_missing [of md "init_state t a" ch] l
    have "e \<noteq> MissingArgForColumn ch" by auto
    ultimately show ?thesis by (auto simp: handler_errors_def)
  qed
  have w: "process md (js ''w'') a = Inl TypeError"
    by (simp add: eval_simps)
  from dispatched_bound [of md s] step braces brace_iterations_bound [of tm k braces] skip errs w
  show ?thesis by blast
qed

theorem C9_process_terminates_witness:
  "process_step sample_validator (init_state (js ''lc'') sample_array) =
     Inr ((init_state (js ''lc'') sample_array)
            \<lparr>c := js ''l'', i := 1, calign := [Some (js ''left'')], j := 1\<rparr>)
   \<and> getBraces (init_state (js ''lc'') sample_array) =
     Inr (Some (js ''l''), (init_state (js ''lc'') sample_array)\<lparr>i := 1\<rparr>)
   \<and> skip_spaces (js ''  x'') 0 = 2
   \<and> process sample_validator (js ''{'') sample_array = Inl (BadColumnCharacter (js ''{''))
   \<and> process sample_validator (js ''w'') sample_array = Inl TypeError"
proof -
  have 1: "process_step sample_validator (init_state (js ''lc'') sample_array) =
     Inr ((init_state (js ''lc'') sample_array)
            \<lparr>c := js ''l'', i := 1, calign := [Some (js ''left'')], j := 1\<rparr>)"
    by (simp add: eval_simps)
  have 2: "getBraces (init_state (js ''lc'') sample_array) =
     Inr (Some (js ''l''), (init_state (js ''lc'') sample_array)\<lparr>i := 1\<rparr>)"
    by (simp add: eval_simps)
  have 3: "skip_spaces (js ''  x'') 0 = 2" "(0::nat) \<le> length (js ''  x'')"
    by (simp_all add: eval_simps)
  have 4: "process sample_validator (js ''{'') sample_array = Inl (BadColumnCharacter (js ''{''))"
    by (simp add: eval_simps)
  from C9_process_terminates [of sample_validator "init_state (js ''lc'') sample_array"
      "(init_state (js ''lc'') sample_array)
            \<lparr>c := js ''l'', i := 1, calign := [Some (js ''left'')], j := 1\<rparr>"
      "Some (js ''l'')" "(init_state (js ''lc'') sample_array)\<lparr>i := 1\<rparr>"
      "js ''  x''" 0 1 "js ''{''" sample_array "BadColumnCharacter (js ''{'')"]
    1 2 3 4
  show ?thesis by blast
qed

subsection \<open>C10: a closing decoration before the first column\<close>

text \<open>
  C10. When the loop stands at \<^verbatim>\<open><\<close> with \<open>j = 0\<close> and \<^verbatim>\<open>getBraces\<close> reads an argument after
  it, the iteration raises no error: it moves the cursor past the argument and stores the
  argument in \<open>cend\<close> under the key \<open>-1\<close>, which is no column index, and changes nothing
  else. The write has no effect on what \<^verbatim>\<open>process\<close> produces: the rest of \<^verbatim>\<open>process\<close> from the
  state after the iteration gives the same result (the same error, or the same
  \<open>columnalign\<close>, \<open>columnwidth\<close>, \<open>columnlines\<close>, \<open>frame\<close>, \<open>dashed\<close> and \<open>ralign\<close>) as from that
  state without the write, since neither the loop nor the finalization depends on
  \<open>cend\<close>. For one, \<^verbatim>\<open>process("<{x}lc", array)\<close> returns what \<^verbatim>\<open>process("lc", array)\<close> returns.
\<close>

theorem C10_close_group_before_first_column:
  "(i s < length (template s) \<longrightarrow> template s ! i s = of_char CHR ''<'' \<longrightarrow> j s = 0 \<longrightarrow>
    getBraces (s\<lparr>c := js ''<'', i := i s + 1\<rparr>) = Inr (v, s2) \<longrightarrow>
      process_step md s = Inr (s\<lparr>c := js ''<'', i := i s2, cend := (cend s)(- 1 \<mapsto> v)\<rparr>)
      \<and> process_from md s a = process_from md (s\<lparr>c := js ''<'', i := i s2\<rparr>) a)
   \<and> process_from md (s\<lparr>cend := ce\<rparr>) a = process_from md s a
   \<and> finalize (s\<lparr>cend := ce\<rparr>) a = finalize s a
   \<and> process md t a = process_from md (init_state t a) a
   \<and> process md (js ''<{x}lc'') a = Inr (a\<lparr>columnalign := Some (js ''left center'')\<rparr>)
   \<and> process md (js ''<{x}lc'') a = process md (js ''lc'') a"
proof -
  have st: "process_step md s = Inr (s\<lparr>c := js ''<'', i := i s2, cend := (cend s)(- 1 \<mapsto> v)\<rparr>)"
    if "template s ! i s = of_char CHR ''<''" "j s = 0"
      "getBraces (s\<lparr>c := js ''<'', i := i s + 1\<rparr>) = Inr (v, s2)"
    using step_lt [OF that(1,3), of md] that(2) by simp
  have rest: "process_from md s a = process_from md (s\<lparr>c := js ''<'', i := i s2\<rparr>) a"
    if "template s ! i s = of_char CHR ''<''" "j s = 0"
      "getBraces (s\<lparr>c := js ''<'', i := i s + 1\<rparr>) = Inr (v, s2)"
      "i s < length (template s)"
  proof -
    have "process_from md s a =
        process_from md ((s\<lparr>c := js ''<'', i := i s2\<rparr>)\<lparr>cend := (cend s)(- 1 \<mapsto> v)\<rparr>) a"
      using st [OF that(1,2,3)] that(4) by (simp add: process_from_def process_loop_step)
    then show ?thesis by (simp only: process_from_cend)
  qed
  have fin: "finalize (s\<lparr>cend := ce\<rparr>) a = finalize s a"
    by (rule finalize_cend) (simp add: eq_cend_def)
  have p: "process md t a = process_from md (init_state t a) a"
    by (simp add: process_def process_from_def)
  have ex1: "process md (js ''<{x}lc'') a = Inr (a\<lparr>columnalign := Some (js ''left center'')\<rparr>)"
    by (simp add: eval_simps)
  have ex2: "process md (js ''lc'') a = Inr (a\<lparr>columnalign := Some (js ''left center'')\<rparr>)"
    by (simp add: eval_simps)
  from st rest process_from_cend fin p ex1 ex2 show ?thesis by metis
qed

theorem C10_close_group_before_first_column_witness:
  "getBraces ((init_state (js ''<{x}lc'') sample_array)\<lparr>c := js ''<'', i := 1\<rparr>) =
     Inr (Some (js ''x''), (init_state (js ''<{x}lc'') sample_array)\<lparr>c := js ''<'', i := 4\<rparr>)
   \<and> process_step sample_validator (init_state (js ''<{x}lc'') sample_array) =
       Inr ((init_state (js ''<{x}lc'') sample_array)
              \<lparr>c := js ''<'', i := 4, cend := [- 1 \<mapsto> Some (js ''x'')]\<rparr>)
   \<and> process_from sample_validator (init_state (js ''<{x}lc'') sample_array) sample_array =
       process_from sample_validator
         ((init_state (js ''<{x}lc'') sample_array)\<lparr>c := js ''<'', i := 4\<rparr>) sample_array
   \<and> process sample_validator (js ''<{x}lc'') sample_array =
       Inr (sample_array\<lparr>columnalign := Some (js ''left center'')\<rparr>)"
proof -
  define s0 where "s0 = init_state (js ''<{x}lc'') sample_array"
  have g: "getBraces (s0\<lparr>c := js ''<'', i := 1\<rparr>) =
     Inr (Some (js ''x''), s0\<lparr>c := js ''<'', i := 4\<rparr>)"
    unfolding s0_def by (simp add: eval_simps)
  have h: "template s0 ! i s0 = of_char CHR ''<''" "j s0 = 0" "i s0 < length (template s0)"
    and i1: "i s0 + 1 = 1" and ce: "cend s0 = Map.empty"
    unfolding s0_def by (simp_all add: init_state_def js_def)
  from g have g': "getBraces (s0\<lparr>c := js ''<'', i := i s0 + 1\<rparr>) =
     Inr (Some (js ''x''), s0\<lparr>c := js ''<'', i := 4\<rparr>)"
    by (simp only: i1)
  from C10_close_group_before_first_column [of s0 "Some (js ''x'')" "s0\<lparr>c := js ''<'', i := 4\<rparr>"
      sample_validator sample_array Map.empty "js ''<{x}lc''"] h g'
  have a: "process_step sample_validator s0 =
       Inr (s0\<lparr>c := js ''<'', i := i (s0\<lparr>c := js ''<'', i := 4\<rparr>),
               cend := (cend s0)(- 1 \<mapsto> Some (js ''x''))\<rparr>)"
    and b: "process_from sample_validator s0 sample_array =
       process_from sample_validator
         (s0\<lparr>c := js ''<'', i := i (s0\<lparr>c := js ''<'', i := 4\<rparr>)\<rparr>) sample_array"
    and p: "process sample_validator (js ''<{x}lc'') sample_array =
       Inr (sample_array\<lparr>columnalign := Some (js ''left center'')\<rparr>)"
    by blast+
  from a have a': "process_step sample_validator s0 =
       Inr (s0\<lparr>c := js ''<'', i := 4, cend := [- 1 \<mapsto> Some (js ''x'')]\<rparr>)"
    by (simp add: ce)
  from b have b': "process_from sample_validator s0 sample_array =
       process_from sample_validator (s0\<lparr>c := js ''<'', i := 4\<rparr>) sample_array"
    by simp
  from g a' b' p show ?thesis unfolding s0_def by blast
qed

end
